theory Spec2Isabelle
  imports Main "HOL-Library.Word"
begin

section \<open>Configuration and sample types (src/cadgetdata.c)\<close>

text \<open>
  The acquisition program fixes its sizes with preprocessor constants. They are collected
  in a record so that every function of the model receives them explicitly; the values
  the program is compiled with are \<open>cadgetdata_config\<close>.
\<close>

type_synonym U16 = "16 word"

record config =
  BUFFER_SAMPLES :: nat
  TOTAL_HW_CHANNELS :: nat
  SELECTED_IDX :: "nat list"
  MAX_EVENT_BATCH :: nat

definition SELECTED_COUNT :: "config \<Rightarrow> nat" where
  "SELECTED_COUNT cfg = length (SELECTED_IDX cfg)"

definition cadgetdata_config :: config where
  "cadgetdata_config =
     \<lparr>BUFFER_SAMPLES = 8192, TOTAL_HW_CHANNELS = 4, SELECTED_IDX = [1, 3],
      MAX_EVENT_BATCH = 1000\<rparr>"

text \<open>
  What stops a run of the model short of a normal return: a read or write outside an array
  or a buffer, a pointer that is not a live allocation, \<open>exit(1)\<close> from
  \<open>print_error_and_cleanup\<close>, and a driver script that ends while the program is still
  polling.
\<close>

datatype fault = OutOfBounds | BadPointer | ProcessExit | StillPolling

section \<open>Channel selection: \<open>extract_selected_channels\<close>\<close>

text \<open>
  The inner loop \<open>for (k = 0; k < SELECTED_COUNT; ++k) dst[out++] = src[base + SELECTED_IDX[k]]\<close>.
  The pair carried along is the destination buffer and the write cursor \<open>out\<close>. A read
  beyond \<open>src\<close> or a write beyond \<open>dst\<close> is a fault.
\<close>

fun extract_scan :: "U16 list \<Rightarrow> nat \<Rightarrow> nat list \<Rightarrow> U16 list \<times> nat \<Rightarrow> fault + U16 list \<times> nat" where
  "extract_scan src base [] (dst, out) = Inr (dst, out)"
| "extract_scan src base (ch # chs) (dst, out) =
     (if base + ch < length src \<and> out < length dst
      then extract_scan src base chs (dst[out := src ! (base + ch)], Suc out)
      else Inl OutOfBounds)"

text \<open>The outer loop \<open>for (i = 0; i < N; ++i)\<close> with \<open>base = i * TOTAL_HW_CHANNELS\<close>.\<close>

function extract_loop :: "config \<Rightarrow> U16 list \<Rightarrow> nat \<Rightarrow> U16 list \<times> nat \<Rightarrow> fault + U16 list \<times> nat" where
  "extract_loop cfg src i st =
     (if i < BUFFER_SAMPLES cfg
      then (case extract_scan src (i * TOTAL_HW_CHANNELS cfg) (SELECTED_IDX cfg) st of
              Inl e \<Rightarrow> Inl e
            | Inr st' \<Rightarrow> extract_loop cfg src (Suc i) st')
      else Inr st)"
  by pat_completeness auto
termination
  by (relation "measure (\<lambda>(cfg, src, i, st). BUFFER_SAMPLES cfg - i)") auto

declare extract_loop.simps [simp del]

definition extract_selected_channels :: "config \<Rightarrow> U16 list \<Rightarrow> U16 list \<Rightarrow> fault + U16 list" where
  "extract_selected_channels cfg src dst =
     (case extract_loop cfg src 0 (dst, 0) of Inl e \<Rightarrow> Inl e | Inr (dst', out) \<Rightarrow> Inr dst')"

text \<open>The samples the selection picks from scan \<open>i\<close>, and from a whole half-buffer.\<close>

definition selected_of_scan :: "config \<Rightarrow> U16 list \<Rightarrow> nat \<Rightarrow> U16 list" where
  "selected_of_scan cfg src i = map (\<lambda>ch. src ! (i * TOTAL_HW_CHANNELS cfg + ch)) (SELECTED_IDX cfg)"

definition selected_samples :: "config \<Rightarrow> U16 list \<Rightarrow> U16 list" where
  "selected_samples cfg src = concat (map (selected_of_scan cfg src) [0..<BUFFER_SAMPLES cfg])"

definition selection_ok :: "config \<Rightarrow> bool" where
  "selection_ok cfg = list_all (\<lambda>ch. ch < TOTAL_HW_CHANNELS cfg) (SELECTED_IDX cfg)"


section \<open>Memory, files and console\<close>

text \<open>
  A byte is a \<open>char\<close>. Event buffers live in a heap that maps a pointer to the bytes of
  a live allocation; \<open>NULL\<close> is never allocated. The allocator hands out the addresses
  \<open>heap_next\<close>, \<open>heap_next + 1\<close>, ... and never reuses one. Whether an allocation
  succeeds is decided by the environment.
\<close>

type_synonym byte = char
type_synonym ptr = nat

definition NULL :: ptr where
  "NULL = 0"

record AcquisitionData =
  data :: ptr
  size' :: nat

text \<open>\<open>struct tm\<close> as \<open>localtime\<close> returns it (the fields the program prints).\<close>

record tm =
  tm_year :: int
  tm_mon :: int
  tm_mday :: int
  tm_hour :: int
  tm_min :: int
  tm_sec :: int

text \<open>
  File operations that succeeded, in the order the program issued them. \<open>Fopen\<close> is
  \<open>fopen(path, "wb")\<close>, which creates or truncates; \<open>MoveFile\<close> is \<open>MoveFileExA\<close> with
  \<open>MOVEFILE_REPLACE_EXISTING\<close>, one step of the file system.
\<close>

datatype file_op =
  Fopen string
| Fwrite string "byte list"
| Fclose string
| MoveFile string string

type_synonym filesystem = "string \<Rightarrow> byte list option"

fun apply_op :: "file_op \<Rightarrow> filesystem \<Rightarrow> filesystem" where
  "apply_op (Fopen p) fs = fs(p \<mapsto> [])"
| "apply_op (Fwrite p bs) fs = fs(p \<mapsto> (case fs p of None \<Rightarrow> [] | Some c \<Rightarrow> c) @ bs)"
| "apply_op (Fclose p) fs = fs"
| "apply_op (MoveFile a b) fs = (case fs a of None \<Rightarrow> fs | Some c \<Rightarrow> fs(a := None, b \<mapsto> c))"

text \<open>
  The global variables of the program (\<open>g_data_buffer\<close>, \<open>g_buffered_count\<close>) together
  with the heap, the file system, the log of file operations and what was printed.
  \<open>g_data_buffer\<close> is a static array: its length is \<open>MAX_EVENT_BATCH\<close> and never
  changes.
\<close>

record world =
  heap :: "ptr \<Rightarrow> byte list option"
  heap_next :: ptr
  g_data_buffer :: "AcquisitionData list"
  g_buffered_count :: nat
  files :: filesystem
  io_log :: "file_op list"
  console :: "string list"

definition initial_world :: "config \<Rightarrow> filesystem \<Rightarrow> world" where
  "initial_world cfg fs =
     \<lparr>heap = (\<lambda>p. None), heap_next = 1,
      g_data_buffer = replicate (MAX_EVENT_BATCH cfg) \<lparr>data = NULL, size' = 0\<rparr>,
      g_buffered_count = 0, files = fs, io_log = [], console = []\<rparr>"

definition do_io :: "file_op \<Rightarrow> world \<Rightarrow> world" where
  "do_io op w = w\<lparr>files := apply_op op (files w), io_log := io_log w @ [op]\<rparr>"

definition printf :: "string \<Rightarrow> world \<Rightarrow> world" where
  "printf msg w = w\<lparr>console := console w @ [msg]\<rparr>"

text \<open>
  \<open>fopen(path, "wb")\<close>: the stream is the path it is open on, \<open>None\<close> is the null
  stream. A failed open changes nothing.
\<close>

definition fopen_wb :: "string \<Rightarrow> bool \<Rightarrow> world \<Rightarrow> string option \<times> world" where
  "fopen_wb path ok w = (if ok then (Some path, do_io (Fopen path) w) else (None, w))"

definition fwrite :: "byte list \<Rightarrow> string \<Rightarrow> world \<Rightarrow> world" where
  "fwrite bs f w = do_io (Fwrite f bs) w"

definition fclose :: "string \<Rightarrow> world \<Rightarrow> world" where
  "fclose f w = do_io (Fclose f) w"

text \<open>The return value of \<open>MoveFileExA\<close> is ignored by the program; a failed move changes nothing.\<close>

definition MoveFileExA :: "string \<Rightarrow> string \<Rightarrow> bool \<Rightarrow> world \<Rightarrow> world" where
  "MoveFileExA src dst ok w = (if ok then do_io (MoveFile src dst) w else w)"

text \<open>
  \<open>realloc(p, n)\<close>: on failure \<open>NULL\<close> and the old block stays; on success the old block
  is released and a new block of \<open>n\<close> bytes holds the old contents. The bytes beyond the
  old contents are unspecified in C; they are zero here, and the program overwrites them
  before it reads them.
\<close>

definition realloc :: "ptr \<Rightarrow> nat \<Rightarrow> bool \<Rightarrow> world \<Rightarrow> fault + ptr \<times> world" where
  "realloc p n ok w =
     (if p \<noteq> NULL \<and> heap w p = None then Inl BadPointer
      else if \<not> ok then Inr (NULL, w)
      else
        let old = (if p = NULL then [] else the (heap w p));
            q = heap_next w;
            h = (if p = NULL then heap w else (heap w)(p := None))
        in Inr (q, w\<lparr>heap := h(q \<mapsto> take n old @ replicate (n - length old) (CHR 0x00)),
                      heap_next := Suc q\<rparr>))"

definition free :: "ptr \<Rightarrow> world \<Rightarrow> fault + world" where
  "free p w =
     (if p = NULL then Inr w
      else if heap w p = None then Inl BadPointer
      else Inr (w\<lparr>heap := (heap w)(p := None)\<rparr>))"

text \<open>\<open>memcpy((char*)p + off, src, n)\<close>: \<open>n\<close> bytes of \<open>src\<close> into the block at \<open>p\<close>.\<close>

definition memcpy :: "ptr \<Rightarrow> nat \<Rightarrow> byte list \<Rightarrow> nat \<Rightarrow> world \<Rightarrow> fault + world" where
  "memcpy p off src n w =
     (case heap w p of
        None \<Rightarrow> Inl BadPointer
      | Some c \<Rightarrow>
          if off + n \<le> length c \<and> n \<le> length src
          then Inr (w\<lparr>heap := (heap w)(p \<mapsto> take off c @ take n src @ drop (off + n) c)\<rparr>)
          else Inl OutOfBounds)"

text \<open>The bytes of a \<open>U16\<close> array in memory (little-endian, as on the x86 target).\<close>

definition bytes_of_U16 :: "U16 \<Rightarrow> byte list" where
  "bytes_of_U16 x = [char_of (unat x), char_of (unat x div 256)]"

definition bytes_of_samples :: "U16 list \<Rightarrow> byte list" where
  "bytes_of_samples xs = concat (map bytes_of_U16 xs)"

section \<open>Text formatting\<close>

definition digit_char :: "nat \<Rightarrow> char" where
  "digit_char d = char_of (48 + d)"

fun dec :: "nat \<Rightarrow> string" where
  "dec n = (if n < 10 then [digit_char n] else dec (n div 10) @ [digit_char (n mod 10)])"

declare dec.simps [simp del]

definition zero_pad :: "nat \<Rightarrow> string \<Rightarrow> string" where
  "zero_pad width s = replicate (width - length s) (CHR ''0'') @ s"

text \<open>The conversion \<open>%0<width>d\<close> of \<open>printf\<close>; \<open>%d\<close> is width 0.\<close>

definition fmt_d :: "nat \<Rightarrow> int \<Rightarrow> string" where
  "fmt_d width x =
     (if x < 0 then CHR ''-'' # zero_pad (width - 1) (dec (nat (- x)))
      else zero_pad width (dec (nat x)))"

text \<open>\<open>snprintf(buf, size, ...)\<close> keeps at most \<open>size - 1\<close> characters.\<close>

definition snprintf :: "nat \<Rightarrow> string \<Rightarrow> string" where
  "snprintf bufsize s = take (bufsize - 1) s"

definition MAX_PATH :: nat where
  "MAX_PATH = 260"

definition LOG_FOLDER :: string where
  "LOG_FOLDER = ''log''"

definition LIVE_FOLDER :: string where
  "LIVE_FOLDER = ''live''"

definition LIVE_UI_FILENAME :: string where
  "LIVE_UI_FILENAME = ''live_acquisition_ui.bin''"

definition CODE_VERSION :: string where
  "CODE_VERSION = ''Code trigger V.3''"

definition AUTHOR_NAME :: string where
  "AUTHOR_NAME = ''Raihan Muhammad''"

definition backslash :: char where
  "backslash = CHR 0x5C"

definition live_filepath_tmp :: string where
  "live_filepath_tmp = snprintf MAX_PATH (LIVE_FOLDER @ [backslash] @ ''live_acquisition_ui.tmp'')"

definition live_filepath_final :: string where
  "live_filepath_final = snprintf MAX_PATH (LIVE_FOLDER @ [backslash] @ LIVE_UI_FILENAME)"

section \<open>Batch flush: \<open>save_batch_to_file\<close>\<close>

definition log_filepath :: "tm \<Rightarrow> nat \<Rightarrow> string" where
  "log_filepath t n =
     snprintf MAX_PATH
       (LOG_FOLDER @ [backslash] @ ''batch_log_''
        @ fmt_d 4 (tm_year t + 1900) @ fmt_d 2 (tm_mon t + 1) @ fmt_d 2 (tm_mday t) @ ''_''
        @ fmt_d 2 (tm_hour t) @ fmt_d 2 (tm_min t) @ fmt_d 2 (tm_sec t) @ ''_''
        @ fmt_d 4 (int n) @ ''_evt.bin'')"

definition test_date :: "tm \<Rightarrow> string" where
  "test_date t =
     fmt_d 4 (tm_year t + 1900) @ ''-'' @ fmt_d 2 (tm_mon t + 1) @ ''-'' @ fmt_d 2 (tm_mday t)
     @ '' '' @ fmt_d 2 (tm_hour t) @ '':'' @ fmt_d 2 (tm_min t) @ '':'' @ fmt_d 2 (tm_sec t)"

text \<open>
  The header of src/cadgetdata.c. The text \<open>snprintf\<close> leaves in \<open>header\<close> has no NUL
  inside, so \<open>strlen(header)\<close> is its length and \<open>fwrite\<close> writes all of it.
\<close>

definition batch_header :: "tm \<Rightarrow> nat \<Rightarrow> string" where
  "batch_header t n =
     snprintf 512
       (''TEST_DATE:'' @ test_date t @ ''\<newline>''
        @ ''CODE_VERSION:'' @ CODE_VERSION @ ''\<newline>''
        @ ''AUTHOR:'' @ AUTHOR_NAME @ ''\<newline>''
        @ ''BATCH_EVENT_COUNT:'' @ fmt_d 0 (int n) @ ''\<newline>''
        @ ''SAVED_CHANNELS:CH1,CH3\<newline>''
        @ ''INTERLEAVE_ORDER:CH1,CH3\<newline>\<newline>'')"

text \<open>\<open>fwrite(p, 1, n, f)\<close> from a heap block; nothing is read when \<open>n = 0\<close>.\<close>

definition fwrite_block :: "ptr \<Rightarrow> nat \<Rightarrow> string \<Rightarrow> world \<Rightarrow> fault + world" where
  "fwrite_block p n f w =
     (if n = 0 then Inr w
      else case heap w p of
             None \<Rightarrow> Inl BadPointer
           | Some c \<Rightarrow> if n \<le> length c then Inr (fwrite (take n c) f w) else Inl OutOfBounds)"

text \<open>One pass of the loop body of step 3: write event \<open>i\<close>, free it, clear its slot.\<close>

definition write_event :: "string \<Rightarrow> nat \<Rightarrow> world \<Rightarrow> fault + world" where
  "write_event f i w =
     (if i < length (g_data_buffer w) then
        (case fwrite_block (data (g_data_buffer w ! i)) (size' (g_data_buffer w ! i)) f w of
           Inl e \<Rightarrow> Inl e
         | Inr w1 \<Rightarrow>
             (case free (data (g_data_buffer w1 ! i)) w1 of
                Inl e \<Rightarrow> Inl e
              | Inr w2 \<Rightarrow>
                  Inr (w2\<lparr>g_data_buffer := (g_data_buffer w2)[i := \<lparr>data = NULL, size' = 0\<rparr>]\<rparr>)))
      else Inl OutOfBounds)"

text \<open>The loop \<open>for (i = 0; i < g_buffered_count; ++i)\<close>; \<open>n\<close> is \<open>g_buffered_count\<close>, which the body does not change.\<close>

function write_events :: "string \<Rightarrow> nat \<Rightarrow> nat \<Rightarrow> world \<Rightarrow> fault + world" where
  "write_events f n i w =
     (if i < n
      then (case write_event f i w of Inl e \<Rightarrow> Inl e | Inr w' \<Rightarrow> write_events f n (Suc i) w')
      else Inr w)"
  by pat_completeness auto
termination
  by (relation "measure (\<lambda>(f, n, i, w). n - i)") auto

declare write_events.simps [simp del]

definition save_batch_to_file :: "tm \<Rightarrow> bool \<Rightarrow> world \<Rightarrow> fault + world" where
  "save_batch_to_file t log_fopen_ok w =
     (if g_buffered_count w = 0 then Inr w
      else
        case fopen_wb (log_filepath t (g_buffered_count w)) log_fopen_ok w of
          (None, w0) \<Rightarrow>
            Inr (printf (''KRITIS: Gagal membuat file batch log: ''
                         @ log_filepath t (g_buffered_count w) @ ''\<newline>'') w0)
        | (Some f_log, w0) \<Rightarrow>
            (case write_events f_log (g_buffered_count w0) 0
                    (fwrite (batch_header t (g_buffered_count w0)) f_log w0) of
               Inl e \<Rightarrow> Inl e
             | Inr w1 \<Rightarrow>
                 Inr ((printf (''Batch '' @ fmt_d 0 (int (g_buffered_count w1))
                               @ '' event disimpan ke '' @ log_filepath t (g_buffered_count w)
                               @ '' (header+data)\<newline>'')
                        (fclose f_log w1))\<lparr>g_buffered_count := 0\<rparr>)))"

section \<open>The drain loop of one trigger cycle (src/cadgetdata.c, \<open>main\<close>)\<close>

text \<open>
  What the environment does during one pass of \<open>while (!g_fStop)\<close>: the two flags
  \<open>WD_AI_AsyncDblBufferHalfReady\<close> reports, the contents of the two DMA half-buffers at
  that moment, whether \<open>realloc\<close> can grow the event buffer, and whether ESC is pressed.
\<close>

record poll =
  halfReady :: bool
  fStop :: bool
  ai_buf :: "U16 list"
  ai_buf2 :: "U16 list"
  realloc_ok :: bool
  esc :: bool

text \<open>The locals of \<open>main\<close> inside one trigger cycle, and the world.\<close>

record drain_state =
  current_acq_buffer :: ptr
  current_acq_size :: nat
  current_buffer_idx :: nat
  g_fStop :: bool
  exit_now :: bool
  sel_work :: "U16 list"
  f_out_live :: "string option"
  wld :: world

definition sel_chunk_samps :: "config \<Rightarrow> nat" where
  "sel_chunk_samps cfg = BUFFER_SAMPLES cfg * SELECTED_COUNT cfg"

definition sel_chunk_bytes :: "config \<Rightarrow> nat" where
  "sel_chunk_bytes cfg = sel_chunk_samps cfg * 2"

text \<open>The branch \<open>new_buffer == NULL\<close>: drop what this event has collected and stop.\<close>

definition alloc_failed :: "drain_state \<Rightarrow> world \<Rightarrow> fault + drain_state" where
  "alloc_failed s w =
     (case free (current_acq_buffer s) w of
        Inl e \<Rightarrow> Inl e
      | Inr w' \<Rightarrow>
          Inr (s\<lparr>current_acq_buffer := NULL, current_acq_size := 0, g_fStop := True, wld := w'\<rparr>))"

text \<open>The other branch: copy the chunk behind the collected bytes, mirror it to the live file.\<close>

definition append_chunk :: "config \<Rightarrow> ptr \<Rightarrow> drain_state \<Rightarrow> world \<Rightarrow> fault + drain_state" where
  "append_chunk cfg new_buffer s w =
     (case memcpy new_buffer (current_acq_size s) (bytes_of_samples (sel_work s))
             (sel_chunk_bytes cfg) w of
        Inl e \<Rightarrow> Inl e
      | Inr w' \<Rightarrow>
          Inr (s\<lparr>current_acq_buffer := new_buffer,
                 current_acq_size := current_acq_size s + sel_chunk_bytes cfg,
                 wld := (case f_out_live s of
                           None \<Rightarrow> w'
                         | Some f \<Rightarrow>
                             fwrite (take (sel_chunk_bytes cfg) (bytes_of_samples (sel_work s))) f w')\<rparr>))"

text \<open>The body of \<open>if (halfReady)\<close>.\<close>

definition half_ready :: "config \<Rightarrow> poll \<Rightarrow> drain_state \<Rightarrow> fault + drain_state" where
  "half_ready cfg p s =
     (let source_buffer = (if current_buffer_idx s = 0 then ai_buf p else ai_buf2 p) in
      case extract_selected_channels cfg source_buffer (sel_work s) of
        Inl e \<Rightarrow> Inl e
      | Inr work \<Rightarrow>
          (case realloc (current_acq_buffer s) (current_acq_size s + sel_chunk_bytes cfg)
                  (realloc_ok p) (wld s) of
             Inl e \<Rightarrow> Inl e
           | Inr (new_buffer, w) \<Rightarrow>
               (case (if new_buffer = NULL then alloc_failed (s\<lparr>sel_work := work\<rparr>) w
                      else append_chunk cfg new_buffer (s\<lparr>sel_work := work\<rparr>) w) of
                  Inl e \<Rightarrow> Inl e
                | Inr s' \<Rightarrow> Inr (s'\<lparr>current_buffer_idx := 1 - current_buffer_idx s'\<rparr>))))"

text \<open>
  One pass of the loop body. \<open>WD_AI_AsyncDblBufferHalfReady\<close> stores the driver's stop
  flag in \<open>g_fStop\<close>, which is 0 on entry.
\<close>

definition drain_iteration :: "config \<Rightarrow> poll \<Rightarrow> drain_state \<Rightarrow> fault + drain_state" where
  "drain_iteration cfg p s =
     (case (if halfReady p then half_ready cfg p (s\<lparr>g_fStop := fStop p\<rparr>)
            else Inr (s\<lparr>g_fStop := fStop p\<rparr>)) of
        Inl e \<Rightarrow> Inl e
      | Inr s' \<Rightarrow> Inr (if esc p then s'\<lparr>g_fStop := True, exit_now := True\<rparr> else s'))"

text \<open>
  \<open>while (!g_fStop)\<close>. Each pass consumes one poll of the script; a script that ends
  before the loop has stopped leaves the program polling.
\<close>

fun drain_loop :: "config \<Rightarrow> poll list \<Rightarrow> drain_state \<Rightarrow> fault + drain_state" where
  "drain_loop cfg [] s = (if g_fStop s then Inr s else Inl StillPolling)"
| "drain_loop cfg (p # ps) s =
     (if g_fStop s then Inr s
      else case drain_iteration cfg p s of Inl e \<Rightarrow> Inl e | Inr s' \<Rightarrow> drain_loop cfg ps s')"

section \<open>One trigger cycle and the main loop (src/cadgetdata.c, \<open>main\<close>)\<close>

text \<open>
  What the environment does during one pass of \<open>while (!exit_now)\<close>: whether one of the
  driver set-up calls fails, whether ESC is pressed while the trigger is armed, whether
  the live temporary file can be opened, whether \<open>sel_work\<close> can be allocated, the
  polls of the drain loop, whether the rename succeeds, and the time and the outcome of
  \<open>fopen\<close> for a flush that this cycle may start.
\<close>

record event_input =
  driver_error :: bool
  esc_while_armed :: bool
  live_fopen_ok :: bool
  sel_work_ok :: bool
  polls :: "poll list"
  move_ok :: bool
  flush_time :: tm
  log_fopen_ok :: bool

text \<open>The stores \<open>g_data_buffer[g_buffered_count] = ...\<close> and \<open>g_buffered_count++\<close>.\<close>

definition batch_append :: "ptr \<Rightarrow> nat \<Rightarrow> world \<Rightarrow> fault + world" where
  "batch_append p n w =
     (if g_buffered_count w < length (g_data_buffer w)
      then Inr (w\<lparr>g_data_buffer := (g_data_buffer w)[g_buffered_count w := \<lparr>data = p, size' = n\<rparr>],
                 g_buffered_count := Suc (g_buffered_count w)\<rparr>)
      else Inl OutOfBounds)"

definition drain_start :: "config \<Rightarrow> string option \<Rightarrow> world \<Rightarrow> drain_state" where
  "drain_start cfg f w =
     \<lparr>current_acq_buffer = NULL, current_acq_size = 0, current_buffer_idx = 0,
      g_fStop = False, exit_now = False,
      sel_work = replicate (sel_chunk_samps cfg) 0, f_out_live = f, wld = w\<rparr>"

text \<open>After the drain loop: close and publish the live file when it was opened.\<close>

definition publish_live :: "bool \<Rightarrow> drain_state \<Rightarrow> world" where
  "publish_live mv_ok s =
     (case f_out_live s of
        None \<Rightarrow> wld s
      | Some f \<Rightarrow> MoveFileExA live_filepath_tmp live_filepath_final mv_ok (fclose f (wld s)))"

text \<open>The end of the cycle: hand a non-empty event to the batch, flush a full batch.\<close>

definition store_event :: "config \<Rightarrow> event_input \<Rightarrow> drain_state \<Rightarrow> world \<Rightarrow> fault + world" where
  "store_event cfg ev s w =
     (if current_acq_buffer s \<noteq> NULL \<and> current_acq_size s > 0 then
        (case batch_append (current_acq_buffer s) (current_acq_size s) w of
           Inl e \<Rightarrow> Inl e
         | Inr w' \<Rightarrow>
             if g_buffered_count w' \<ge> MAX_EVENT_BATCH cfg
             then save_batch_to_file (flush_time ev) (log_fopen_ok ev) w'
             else Inr w')
      else Inr w)"

text \<open>
  One pass of \<open>while (!exit_now)\<close>; the result carries \<open>exit_now\<close>. A failing driver
  call and a failing allocation of \<open>sel_work\<close> end the process in
  \<open>print_error_and_cleanup\<close>.
\<close>

definition acquire_event :: "config \<Rightarrow> event_input \<Rightarrow> world \<Rightarrow> fault + bool \<times> world" where
  "acquire_event cfg ev w =
     (if driver_error ev then Inl ProcessExit
      else if esc_while_armed ev then Inr (True, w)
      else
        case fopen_wb live_filepath_tmp (live_fopen_ok ev) w of
          (f, w0) \<Rightarrow>
            if \<not> sel_work_ok ev then Inl ProcessExit
            else
              (case drain_loop cfg (polls ev) (drain_start cfg f w0) of
                 Inl e \<Rightarrow> Inl e
               | Inr s \<Rightarrow>
                   (case store_event cfg ev s (publish_live (move_ok ev) s) of
                      Inl e \<Rightarrow> Inl e
                    | Inr w' \<Rightarrow> Inr (exit_now s, w'))))"

text \<open>
  \<open>while (!exit_now)\<close> over a script of trigger cycles. A script that ends before ESC
  leaves the program running; the result then carries \<open>False\<close>.
\<close>

fun event_loop :: "config \<Rightarrow> event_input list \<Rightarrow> world \<Rightarrow> fault + bool \<times> world" where
  "event_loop cfg [] w = Inr (False, w)"
| "event_loop cfg (ev # evs) w =
     (case acquire_event cfg ev w of
        Inl e \<Rightarrow> Inl e
      | Inr (ex, w') \<Rightarrow> if ex then Inr (True, w') else event_loop cfg evs w')"

text \<open>\<open>main\<close> after the card is set up: the loop, then the flush of what is left.\<close>

definition main :: "config \<Rightarrow> filesystem \<Rightarrow> event_input list \<Rightarrow> tm \<Rightarrow> bool \<Rightarrow> fault + world" where
  "main cfg fs evs t final_fopen_ok =
     (case event_loop cfg evs (initial_world cfg fs) of
        Inl e \<Rightarrow> Inl e
      | Inr (ex, w) \<Rightarrow>
          if \<not> ex then Inl StillPolling
          else if g_buffered_count w > 0 then save_batch_to_file t final_fopen_ok w
          else Inr w)"

section \<open>The variant without channel selection (src/CodeTriggerExtBaru/ori.c)\<close>

text \<open>
  ori.c scans \<open>CHANNEL_COUNT\<close> channels and keeps all of them: a chunk is a whole
  half-buffer. \<open>TOTAL_HW_CHANNELS\<close> of the configuration stands for \<open>CHANNEL_COUNT\<close>; the
  selection is not used. The locals are those of src/cadgetdata.c without \<open>sel_work\<close>,
  which stays empty.
\<close>

definition ori_config :: config where
  "ori_config =
     \<lparr>BUFFER_SAMPLES = 8192, TOTAL_HW_CHANNELS = 2, SELECTED_IDX = [0, 1],
      MAX_EVENT_BATCH = 1000\<rparr>"

definition chunk_size :: "config \<Rightarrow> nat" where
  "chunk_size cfg = 2 * BUFFER_SAMPLES cfg * TOTAL_HW_CHANNELS cfg"

text \<open>The header of ori.c has no channel lines.\<close>

definition ori_batch_header :: "tm \<Rightarrow> nat \<Rightarrow> string" where
  "ori_batch_header t n =
     snprintf 512
       (''TEST_DATE:'' @ test_date t @ ''\<newline>''
        @ ''CODE_VERSION:'' @ CODE_VERSION @ ''\<newline>''
        @ ''AUTHOR:'' @ AUTHOR_NAME @ ''\<newline>''
        @ ''BATCH_EVENT_COUNT:'' @ fmt_d 0 (int n) @ ''\<newline>\<newline>'')"

definition ori_save_batch_to_file :: "tm \<Rightarrow> bool \<Rightarrow> world \<Rightarrow> fault + world" where
  "ori_save_batch_to_file t ok w =
     (if g_buffered_count w = 0 then Inr w
      else
        case fopen_wb (log_filepath t (g_buffered_count w)) ok w of
          (None, w0) \<Rightarrow>
            Inr (printf (''KRITIS: Gagal membuat file batch log: ''
                         @ log_filepath t (g_buffered_count w) @ ''\<newline>'') w0)
        | (Some f_log, w0) \<Rightarrow>
            (case write_events f_log (g_buffered_count w0) 0
                    (fwrite (ori_batch_header t (g_buffered_count w0)) f_log w0) of
               Inl e \<Rightarrow> Inl e
             | Inr w1 \<Rightarrow>
                 Inr ((printf (''Batch '' @ fmt_d 0 (int (g_buffered_count w1))
                               @ '' event berhasil disimpan ke ''
                               @ log_filepath t (g_buffered_count w)
                               @ '' (header+data)\<newline>'')
                        (fclose f_log w1))\<lparr>g_buffered_count := 0\<rparr>)))"

text \<open>
  The body of \<open>if (halfReady)\<close> in ori.c. The result says whether the loop was left by
  \<open>break\<close>: on a failed \<open>realloc\<close> the event buffer is freed and the pass ends before
  the ESC check; \<open>current_acq_size\<close> is not reset. The chunk is written to the live
  stream without a test of the stream.
\<close>

definition ori_half_ready :: "config \<Rightarrow> poll \<Rightarrow> drain_state \<Rightarrow> fault + bool \<times> drain_state" where
  "ori_half_ready cfg p s =
     (let source_buffer = (if current_buffer_idx s = 0 then ai_buf p else ai_buf2 p) in
      case realloc (current_acq_buffer s) (current_acq_size s + chunk_size cfg)
             (realloc_ok p) (wld s) of
        Inl e \<Rightarrow> Inl e
      | Inr (new_buffer, w) \<Rightarrow>
          if new_buffer = NULL then
            (case free (current_acq_buffer s) w of
               Inl e \<Rightarrow> Inl e
             | Inr w' \<Rightarrow> Inr (True, s\<lparr>g_fStop := True, current_acq_buffer := NULL, wld := w'\<rparr>))
          else
            (case memcpy new_buffer (current_acq_size s) (bytes_of_samples source_buffer)
                    (chunk_size cfg) w of
               Inl e \<Rightarrow> Inl e
             | Inr w' \<Rightarrow>
                 (case f_out_live s of
                    None \<Rightarrow> Inl BadPointer
                  | Some f \<Rightarrow>
                      Inr (False,
                           s\<lparr>current_acq_buffer := new_buffer,
                             current_acq_size := current_acq_size s + chunk_size cfg,
                             wld := fwrite (take (chunk_size cfg) (bytes_of_samples source_buffer)) f w',
                             current_buffer_idx := 1 - current_buffer_idx s\<rparr>))))"

definition ori_drain_iteration :: "config \<Rightarrow> poll \<Rightarrow> drain_state \<Rightarrow> fault + drain_state" where
  "ori_drain_iteration cfg p s =
     (case (if halfReady p then ori_half_ready cfg p (s\<lparr>g_fStop := fStop p\<rparr>)
            else Inr (False, s\<lparr>g_fStop := fStop p\<rparr>)) of
        Inl e \<Rightarrow> Inl e
      | Inr (broke, s') \<Rightarrow>
          Inr (if \<not> broke \<and> esc p then s'\<lparr>g_fStop := True, exit_now := True\<rparr> else s'))"

fun ori_drain_loop :: "config \<Rightarrow> poll list \<Rightarrow> drain_state \<Rightarrow> fault + drain_state" where
  "ori_drain_loop cfg [] s = (if g_fStop s then Inr s else Inl StillPolling)"
| "ori_drain_loop cfg (p # ps) s =
     (if g_fStop s then Inr s
      else case ori_drain_iteration cfg p s of
             Inl e \<Rightarrow> Inl e
           | Inr s' \<Rightarrow> ori_drain_loop cfg ps s')"

definition ori_drain_start :: "string option \<Rightarrow> world \<Rightarrow> drain_state" where
  "ori_drain_start f w =
     \<lparr>current_acq_buffer = NULL, current_acq_size = 0, current_buffer_idx = 0,
      g_fStop = False, exit_now = False, sel_work = [], f_out_live = f, wld = w\<rparr>"

text \<open>After the loop ori.c closes the stream if there is one and renames in any case.\<close>

definition ori_publish_live :: "bool \<Rightarrow> drain_state \<Rightarrow> world" where
  "ori_publish_live mv_ok s =
     MoveFileExA live_filepath_tmp live_filepath_final mv_ok
       (case f_out_live s of None \<Rightarrow> wld s | Some f \<Rightarrow> fclose f (wld s))"

definition ori_store_event :: "config \<Rightarrow> event_input \<Rightarrow> drain_state \<Rightarrow> world \<Rightarrow> fault + world" where
  "ori_store_event cfg ev s w =
     (if current_acq_buffer s \<noteq> NULL \<and> current_acq_size s > 0 then
        (case batch_append (current_acq_buffer s) (current_acq_size s) w of
           Inl e \<Rightarrow> Inl e
         | Inr w' \<Rightarrow>
             if g_buffered_count w' \<ge> MAX_EVENT_BATCH cfg
             then ori_save_batch_to_file (flush_time ev) (log_fopen_ok ev) w'
             else Inr w')
      else Inr w)"

text \<open>
  One pass of \<open>while (!exit_now)\<close> in ori.c. When the live temporary file cannot be
  opened, \<open>continue\<close> ends the pass at once. (\<open>sel_work_ok\<close> is not consulted: ori.c has
  no work buffer. fft_zero.c has the same test, \<open>if (!f_out_live) continue;\<close>.)
\<close>

definition ori_acquire_event :: "config \<Rightarrow> event_input \<Rightarrow> world \<Rightarrow> fault + bool \<times> world" where
  "ori_acquire_event cfg ev w =
     (if driver_error ev then Inl ProcessExit
      else if esc_while_armed ev then Inr (True, w)
      else
        case fopen_wb live_filepath_tmp (live_fopen_ok ev) w of
          (None, w0) \<Rightarrow> Inr (False, w0)
        | (Some f, w0) \<Rightarrow>
            (case ori_drain_loop cfg (polls ev) (ori_drain_start (Some f) w0) of
               Inl e \<Rightarrow> Inl e
             | Inr s \<Rightarrow>
                 (case ori_store_event cfg ev s (ori_publish_live (move_ok ev) s) of
                    Inl e \<Rightarrow> Inl e
                  | Inr w' \<Rightarrow> Inr (exit_now s, w'))))"

section \<open>Concrete inputs\<close>

text \<open>The scenario of the specification: two scans of four channels, channels 1 and 3 kept.\<close>

definition scenario_config :: config where
  "scenario_config =
     \<lparr>BUFFER_SAMPLES = 2, TOTAL_HW_CHANNELS = 4, SELECTED_IDX = [1, 3], MAX_EVENT_BATCH = 2\<rparr>"

definition scenario_half :: "U16 list" where
  "scenario_half = [10, 20, 30, 40, 11, 21, 31, 41]"

text \<open>A file system without files.\<close>

definition no_files :: filesystem where
  "no_files = Map.empty"

text \<open>A second half-buffer, and polls that deliver the two, with an idle poll between.\<close>

definition scenario_half2 :: "U16 list" where
  "scenario_half2 = [12, 22, 32, 42, 13, 23, 33, 43]"

definition poll_first :: poll where
  "poll_first =
     \<lparr>halfReady = True, fStop = False, ai_buf = scenario_half, ai_buf2 = scenario_half2,
      realloc_ok = True, esc = False\<rparr>"

definition poll_idle :: poll where
  "poll_idle =
     \<lparr>halfReady = False, fStop = False, ai_buf = scenario_half, ai_buf2 = scenario_half2,
      realloc_ok = True, esc = False\<rparr>"

definition poll_last :: poll where
  "poll_last =
     \<lparr>halfReady = True, fStop = True, ai_buf = scenario_half, ai_buf2 = scenario_half2,
      realloc_ok = True, esc = False\<rparr>"

text \<open>A time of day, and a world whose batch holds two events of two and three bytes.\<close>

definition some_time :: tm where
  "some_time = \<lparr>tm_year = 125, tm_mon = 0, tm_mday = 2, tm_hour = 3, tm_min = 4, tm_sec = 5\<rparr>"

definition two_event_world :: world where
  "two_event_world =
     \<lparr>heap = [1 \<mapsto> ''ab'', 2 \<mapsto> ''cde''], heap_next = 3,
      g_data_buffer = [\<lparr>data = 1, size' = 2\<rparr>, \<lparr>data = 2, size' = 3\<rparr>],
      g_buffered_count = 2, files = no_files, io_log = [], console = []\<rparr>"

text \<open>
  A trigger cycle that delivers one half-buffer of zeros and then stops, in a run where
  the log folder cannot be written: every flush that is started fails to open its file.
\<close>

definition full_poll :: "config \<Rightarrow> poll" where
  "full_poll cfg =
     \<lparr>halfReady = True, fStop = True,
      ai_buf = replicate (BUFFER_SAMPLES cfg * TOTAL_HW_CHANNELS cfg) 0,
      ai_buf2 = replicate (BUFFER_SAMPLES cfg * TOTAL_HW_CHANNELS cfg) 0,
      realloc_ok = True, esc = False\<rparr>"

definition unflushed_event :: "config \<Rightarrow> event_input" where
  "unflushed_event cfg =
     \<lparr>driver_error = False, esc_while_armed = False, live_fopen_ok = True, sel_work_ok = True,
      polls = [full_poll cfg], move_ok = True, flush_time = some_time, log_fopen_ok = False\<rparr>"



text \<open>A trigger cycle whose first chunk is stored and whose second chunk cannot be.\<close>

definition poll_fail :: poll where
  "poll_fail =
     \<lparr>halfReady = True, fStop = False, ai_buf = scenario_half, ai_buf2 = scenario_half2,
      realloc_ok = False, esc = False\<rparr>"

definition failing_event :: event_input where
  "failing_event =
     \<lparr>driver_error = False, esc_while_armed = False, live_fopen_ok = True, sel_work_ok = True,
      polls = [poll_first, poll_fail], move_ok = True, flush_time = some_time,
      log_fopen_ok = True\<rparr>"

text \<open>
  A trigger cycle in which the driver delivers one half-buffer and stops, once with the
  live temporary file opened and once without.
\<close>

definition two_channel_config :: config where
  "two_channel_config =
     \<lparr>BUFFER_SAMPLES = 2, TOTAL_HW_CHANNELS = 2, SELECTED_IDX = [0, 1], MAX_EVENT_BATCH = 2\<rparr>"

definition poll_only :: poll where
  "poll_only =
     \<lparr>halfReady = True, fStop = True, ai_buf = [10, 20, 11, 21], ai_buf2 = [0, 0, 0, 0],
      realloc_ok = True, esc = False\<rparr>"

definition one_chunk_event :: "bool \<Rightarrow> event_input" where
  "one_chunk_event live_ok =
     \<lparr>driver_error = False, esc_while_armed = False, live_fopen_ok = live_ok, sel_work_ok = True,
      polls = [poll_only], move_ok = True, flush_time = some_time, log_fopen_ok = True\<rparr>"

text \<open>The cycle of \<open>unflushed_event\<close> when the live temporary file cannot be opened.\<close>

definition blind_event :: "config \<Rightarrow> event_input" where
  "blind_event cfg = (unflushed_event cfg)\<lparr>live_fopen_ok := False\<rparr>"

section \<open>Notions used to state the properties\<close>

text \<open>The part of the world that belongs to the batch: the array, its count, the console.\<close>

definition batch_part :: "world \<Rightarrow> AcquisitionData list \<times> nat \<times> string list" where
  "batch_part w = (g_data_buffer w, g_buffered_count w, console w)"

text \<open>
  The array has its declared length and the count leaves room for one more event, so
  that the next store \<open>g_data_buffer[g_buffered_count]\<close> is inside the array.
\<close>

definition batch_inv :: "config \<Rightarrow> world \<Rightarrow> bool" where
  "batch_inv cfg w =
     (length (g_data_buffer w) = MAX_EVENT_BATCH cfg \<and> g_buffered_count w < MAX_EVENT_BATCH cfg)"

text \<open>The bytes the current event has collected: none while the buffer pointer is \<open>NULL\<close>.\<close>

definition acq_bytes :: "drain_state \<Rightarrow> byte list option" where
  "acq_bytes s =
     (if current_acq_buffer s = NULL then Some [] else heap (wld s) (current_acq_buffer s))"

text \<open>The bytes one half-buffer contributes to an event: its selected samples, as stored.\<close>

definition extract_bytes :: "config \<Rightarrow> U16 list \<Rightarrow> byte list" where
  "extract_bytes cfg src = bytes_of_samples (selected_samples cfg src)"

text \<open>Both DMA half-buffers have their declared length.\<close>

definition poll_ok :: "config \<Rightarrow> poll \<Rightarrow> bool" where
  "poll_ok cfg p =
     (length (ai_buf p) = BUFFER_SAMPLES cfg * TOTAL_HW_CHANNELS cfg
      \<and> length (ai_buf2 p) = BUFFER_SAMPLES cfg * TOTAL_HW_CHANNELS cfg)"

text \<open>The half-buffer that is due at a poll: \<open>ai_buf\<close> when the index is 0, else \<open>ai_buf2\<close>.\<close>

definition due_buffer :: "nat \<Rightarrow> poll \<Rightarrow> U16 list" where
  "due_buffer idx p = (if idx = 0 then ai_buf p else ai_buf2 p)"

text \<open>The heap with the block at \<open>p\<close> released; nothing happens for \<open>NULL\<close>.\<close>

definition release :: "ptr \<Rightarrow> (ptr \<Rightarrow> byte list option) \<Rightarrow> (ptr \<Rightarrow> byte list option)" where
  "release p h = (if p = NULL then h else h(p := None))"

text \<open>A chunk mirrored to the live stream when there is one.\<close>

definition live_mirror :: "string option \<Rightarrow> byte list \<Rightarrow> world \<Rightarrow> world" where
  "live_mirror f bs w = (case f of None \<Rightarrow> w | Some path \<Rightarrow> fwrite bs path w)"

text \<open>
  What the drain loop relies on between two passes: the work buffer has its allocated
  length, the event buffer is \<open>NULL\<close> or a live block of \<open>current_acq_size\<close> bytes, and
  the allocator does not hand out \<open>NULL\<close>.
\<close>

definition drain_inv :: "config \<Rightarrow> drain_state \<Rightarrow> bool" where
  "drain_inv cfg s =
     (length (sel_work s) = sel_chunk_samps cfg
      \<and> (case acq_bytes s of None \<Rightarrow> False | Some acc \<Rightarrow> length acc = current_acq_size s)
      \<and> heap_next (wld s) \<noteq> NULL)"

text \<open>
  The half-buffers a script of polls delivers, in arrival order: at every poll that
  reports a half-buffer ready, the buffer that is due; the two buffers alternate,
  starting with the index given.
\<close>

fun delivered :: "nat \<Rightarrow> poll list \<Rightarrow> U16 list list" where
  "delivered idx [] = []"
| "delivered idx (p # ps) =
     (if halfReady p then due_buffer idx p # delivered (1 - idx) ps else delivered idx ps)"

text \<open>
  A poll of an event that is neither cancelled nor short of memory: the half-buffers
  have their length, growing the event buffer succeeds when it is asked for, ESC is not
  pressed.
\<close>

definition calm_poll :: "config \<Rightarrow> poll \<Rightarrow> bool" where
  "calm_poll cfg p = (poll_ok cfg p \<and> (halfReady p \<longrightarrow> realloc_ok p) \<and> \<not> esc p)"

text \<open>
  The heap outside the current event: what is left of the heap of a trigger cycle when
  the event buffer is released is \<open>h0\<close>, and \<open>h0\<close> has nothing at the addresses the
  allocator has not handed out yet.
\<close>

definition event_heap :: "(ptr \<Rightarrow> byte list option) \<Rightarrow> drain_state \<Rightarrow> bool" where
  "event_heap h0 s =
     (release (current_acq_buffer s) (heap (wld s)) = h0
      \<and> (\<forall>p\<ge>heap_next (wld s). h0 p = None))"

text \<open>The world and the locals with everything about files left out.\<close>

definition without_files :: "world \<Rightarrow> world" where
  "without_files w = w\<lparr>files := Map.empty, io_log := []\<rparr>"

definition without_live :: "drain_state \<Rightarrow> drain_state" where
  "without_live s = s\<lparr>f_out_live := None, wld := without_files (wld s)\<rparr>"

section \<open>File operations over time\<close>

text \<open>The file system after a sequence of operations.\<close>

fun replay :: "file_op list \<Rightarrow> filesystem \<Rightarrow> filesystem" where
  "replay [] fs = fs"
| "replay (op # ops) fs = replay ops (apply_op op fs)"

text \<open>Whether an operation can change what is found under a path.\<close>

fun touches :: "string \<Rightarrow> file_op \<Rightarrow> bool" where
  "touches p (Fopen q) = (p = q)"
| "touches p (Fwrite q bs) = (p = q)"
| "touches p (Fclose q) = False"
| "touches p (MoveFile a b) = (p = a \<or> p = b)"

text \<open>The operations that lead from one world to a later one.\<close>

definition io_from :: "world \<Rightarrow> world \<Rightarrow> file_op list \<Rightarrow> bool" where
  "io_from w w' ops = (io_log w' = io_log w @ ops \<and> files w' = replay ops (files w))"

text \<open>The writes of the chunks \<open>cs\<close> to the live stream, if there is one.\<close>

definition live_writes :: "string option \<Rightarrow> byte list list \<Rightarrow> file_op list" where
  "live_writes f cs = (case f of None \<Rightarrow> [] | Some path \<Rightarrow> map (Fwrite path) cs)"

text \<open>
  Complete snapshots. While the operations are followed, the pair holds the contents
  of the temporary live file at each of its closes so far, and what has been written to
  it since it was last opened, if it is open.
\<close>

fun snap_step :: "byte list list \<times> byte list option \<Rightarrow> file_op \<Rightarrow> byte list list \<times> byte list option" where
  "snap_step (closed, cur) (Fopen p) = (closed, if p = live_filepath_tmp then Some [] else cur)"
| "snap_step (closed, cur) (Fwrite p bs) =
     (closed, if p = live_filepath_tmp then map_option (\<lambda>c. c @ bs) cur else cur)"
| "snap_step (closed, cur) (Fclose p) =
     (if p = live_filepath_tmp
      then (case cur of None \<Rightarrow> (closed, None) | Some c \<Rightarrow> (closed @ [c], None))
      else (closed, cur))"
| "snap_step (closed, cur) (MoveFile a b) = (closed, cur)"

text \<open>
  At every operation the visible live file either stays what it was or becomes a
  snapshot that was written in full and closed before.
\<close>

fun publishes_whole :: "file_op list \<Rightarrow> filesystem \<Rightarrow> byte list list \<times> byte list option \<Rightarrow> bool" where
  "publishes_whole [] fs st = True"
| "publishes_whole (op # ops) fs st =
     ((apply_op op fs live_filepath_final = fs live_filepath_final
       \<or> (case apply_op op fs live_filepath_final of
             None \<Rightarrow> False
           | Some c \<Rightarrow> c \<in> set (fst (snap_step st op))))
      \<and> publishes_whole ops (apply_op op fs) (snap_step st op))"

text \<open>
  The operations that publish one live snapshot of the chunks \<open>cs\<close>: open the temporary
  file, write the chunks, close it, and then rename it to the visible path if the rename
  succeeds.
\<close>

definition live_publication :: "byte list list \<Rightarrow> bool \<Rightarrow> file_op list" where
  "live_publication cs moved =
     Fopen live_filepath_tmp # map (Fwrite live_filepath_tmp) cs
     @ Fclose live_filepath_tmp
       # (if moved then [MoveFile live_filepath_tmp live_filepath_final] else [])"

section \<open>Reading a batch log back\<close>

text \<open>
  The programs only write batch logs. The reader below is the one the round-trip
  property of the specification speaks of: it takes the text lines up to the first empty
  line as the header, finds the declared event count in the line
  \<open>BATCH_EVENT_COUNT:\<close>, and cuts the bytes after the header by the known sizes of the
  events.
\<close>

definition newline :: char where
  "newline = CHR 0x0A"

fun read_line :: "byte list \<Rightarrow> (string \<times> byte list) option" where
  "read_line [] = None"
| "read_line (c # cs) =
     (if c = newline then Some ([], cs)
      else case read_line cs of None \<Rightarrow> None | Some (l, rest) \<Rightarrow> Some (c # l, rest))"

text \<open>At most \<open>n\<close> lines are read; a file of \<open>n\<close> bytes has no more than \<open>n\<close> lines.\<close>

fun read_header :: "nat \<Rightarrow> byte list \<Rightarrow> (string list \<times> byte list) option" where
  "read_header 0 bs = None"
| "read_header (Suc n) bs =
     (case read_line bs of
        None \<Rightarrow> None
      | Some (l, rest) \<Rightarrow>
          if l = [] then Some ([], rest)
          else case read_header n rest of
                 None \<Rightarrow> None
               | Some (ls, rest') \<Rightarrow> Some (l # ls, rest'))"

fun field_value :: "string \<Rightarrow> string list \<Rightarrow> string option" where
  "field_value key [] = None"
| "field_value key (l # ls) =
     (if take (length key) l = key then Some (drop (length key) l) else field_value key ls)"

definition is_digit :: "char \<Rightarrow> bool" where
  "is_digit c = (48 \<le> (of_char c :: nat) \<and> (of_char c :: nat) \<le> 57)"

fun parse_digits :: "nat \<Rightarrow> string \<Rightarrow> nat option" where
  "parse_digits acc [] = Some acc"
| "parse_digits acc (c # cs) =
     (if is_digit c then parse_digits (acc * 10 + (of_char c - 48)) cs else None)"

definition parse_nat :: "string \<Rightarrow> nat option" where
  "parse_nat s = (if s = [] then None else parse_digits 0 s)"

definition read_batch_log :: "byte list \<Rightarrow> (nat \<times> byte list) option" where
  "read_batch_log bs =
     (case read_header (length bs) bs of
        None \<Rightarrow> None
      | Some (ls, rest) \<Rightarrow>
          (case field_value ''BATCH_EVENT_COUNT:'' ls of
             None \<Rightarrow> None
           | Some d \<Rightarrow> (case parse_nat d of None \<Rightarrow> None | Some n \<Rightarrow> Some (n, rest))))"

fun split_sizes :: "nat list \<Rightarrow> byte list \<Rightarrow> byte list list" where
  "split_sizes [] bs = []"
| "split_sizes (n # ns) bs = take n bs # split_sizes ns (drop n bs)"

text \<open>The bytes event \<open>j\<close> of the batch holds, and the sizes the batch records.\<close>

definition event_payload :: "world \<Rightarrow> nat \<Rightarrow> byte list" where
  "event_payload w j =
     (case heap w (data (g_data_buffer w ! j)) of
        None \<Rightarrow> []
      | Some c \<Rightarrow> take (size' (g_data_buffer w ! j)) c)"

definition batch_payloads :: "world \<Rightarrow> byte list list" where
  "batch_payloads w = map (event_payload w) [0..<g_buffered_count w]"

definition batch_sizes :: "world \<Rightarrow> nat list" where
  "batch_sizes w = map (\<lambda>j. size' (g_data_buffer w ! j)) [0..<g_buffered_count w]"

text \<open>
  A batch as the main loop builds it: the counted entries are inside the array, each
  points to a live block of its own that holds at least \<open>size\<close> bytes.
\<close>

definition batch_ok :: "world \<Rightarrow> bool" where
  "batch_ok w =
     (g_buffered_count w \<le> length (g_data_buffer w)
      \<and> list_all (\<lambda>e. data e \<noteq> NULL
                       \<and> (case heap w (data e) of None \<Rightarrow> False | Some c \<Rightarrow> size' e \<le> length c))
           (take (g_buffered_count w) (g_data_buffer w))
      \<and> distinct (map data (take (g_buffered_count w) (g_data_buffer w))))"

text \<open>A calendar time as \<open>localtime\<close> gives it, up to the year 9999.\<close>

definition valid_tm :: "tm \<Rightarrow> bool" where
  "valid_tm t =
     (0 \<le> tm_year t + 1900 \<and> tm_year t + 1900 \<le> 9999 \<and> 0 \<le> tm_mon t \<and> tm_mon t \<le> 11
      \<and> 1 \<le> tm_mday t \<and> tm_mday t \<le> 31 \<and> 0 \<le> tm_hour t \<and> tm_hour t \<le> 23
      \<and> 0 \<le> tm_min t \<and> tm_min t \<le> 59 \<and> 0 \<le> tm_sec t \<and> tm_sec t \<le> 61)"

text \<open>The lines of the header of src/cadgetdata.c for \<open>n\<close> events.\<close>

definition header_lines :: "tm \<Rightarrow> nat \<Rightarrow> string list" where
  "header_lines t n =
     [''TEST_DATE:'' @ test_date t, ''CODE_VERSION:Code trigger V.3'', ''AUTHOR:Raihan Muhammad'',
      ''BATCH_EVENT_COUNT:'' @ dec n, ''SAVED_CHANNELS:CH1,CH3'', ''INTERLEAVE_ORDER:CH1,CH3'']"

section \<open>Channel selection is correct\<close>

text \<open>
  With a source of \<open>BUFFER_SAMPLES * TOTAL_HW_CHANNELS\<close> samples, a selection inside
  the scanned channels and a destination of \<open>BUFFER_SAMPLES * SELECTED_COUNT\<close> slots,
  neither loop leaves its arrays, and the destination ends up holding the selected
  samples scan by scan.
\<close>

lemma extract_scan_ok:
  "\<forall>ch\<in>set chs. base + ch < length src \<Longrightarrow> out + length chs \<le> length dst \<Longrightarrow>
   extract_scan src base chs (dst, out) =
     Inr (take out dst @ map (\<lambda>ch. src ! (base + ch)) chs @ drop (out + length chs) dst,
          out + length chs)"
proof (induction chs arbitrary: dst out)
  case Nil
  then show ?case by simp
next
  case (Cons ch chs)
  have lt: "out < length dst" using Cons.prems by simp
  have step: "extract_scan src base (ch # chs) (dst, out) =
        extract_scan src base chs (dst[out := src ! (base + ch)], Suc out)"
    using Cons.prems lt by simp
  have ih: "extract_scan src base chs (dst[out := src ! (base + ch)], Suc out) =
     Inr (take (Suc out) (dst[out := src ! (base + ch)]) @ map (\<lambda>ch. src ! (base + ch)) chs
            @ drop (Suc out + length chs) (dst[out := src ! (base + ch)]),
          Suc out + length chs)"
    using Cons.prems by (intro Cons.IH) auto
  have t: "take (Suc out) (dst[out := src ! (base + ch)]) = take out dst @ [src ! (base + ch)]"
    using lt by (simp add: take_Suc_conv_app_nth)
  have d: "drop (Suc out + length chs) (dst[out := src ! (base + ch)]) = drop (Suc out + length chs) dst"
    by simp
  show ?case unfolding step ih t d by simp
qed

lemma scan_index_bound:
  assumes "i < (n::nat)" "ch < t"
  shows "i * t + ch < n * t"
proof -
  have "i * t + ch < Suc i * t" using assms by simp
  also have "\<dots> \<le> n * t" using assms by (intro mult_le_mono1) simp
  finally show ?thesis .
qed

lemma extract_loop_ok:
  assumes src: "length src = BUFFER_SAMPLES cfg * TOTAL_HW_CHANNELS cfg"
    and sel: "selection_ok cfg"
    and dst: "length dst = BUFFER_SAMPLES cfg * SELECTED_COUNT cfg"
    and i: "i \<le> BUFFER_SAMPLES cfg"
  shows "extract_loop cfg src i (dst, i * SELECTED_COUNT cfg) =
     Inr (take (i * SELECTED_COUNT cfg) dst
            @ concat (map (selected_of_scan cfg src) [i..<BUFFER_SAMPLES cfg]),
          BUFFER_SAMPLES cfg * SELECTED_COUNT cfg)"
  using dst i
proof (induction "BUFFER_SAMPLES cfg - i" arbitrary: i dst)
  case 0
  then have "i = BUFFER_SAMPLES cfg" by simp
  then show ?case using "0.prems" by (subst extract_loop.simps) simp
next
  case (Suc d)
  let ?N = "BUFFER_SAMPLES cfg" and ?T = "TOTAL_HW_CHANNELS cfg" and ?c = "SELECTED_COUNT cfg"
  have lt: "i < ?N" using Suc.hyps(2) by simp
  have rd: "\<forall>ch\<in>set (SELECTED_IDX cfg). i * ?T + ch < length src"
    using sel lt src by (auto simp: selection_ok_def list_all_iff intro: scan_index_bound)
  have "Suc i * ?c \<le> ?N * ?c" using lt by (intro mult_le_mono1) simp
  then have wr: "i * ?c + length (SELECTED_IDX cfg) \<le> length dst"
    using Suc.prems(1) by (simp add: SELECTED_COUNT_def)
  define dst' where "dst' = take (i * ?c) dst @ selected_of_scan cfg src i @ drop (i * ?c + ?c) dst"
  have scan: "extract_scan src (i * ?T) (SELECTED_IDX cfg) (dst, i * ?c) = Inr (dst', Suc i * ?c)"
    using extract_scan_ok[OF rd wr] by (simp add: dst'_def selected_of_scan_def SELECTED_COUNT_def)
  have len': "length dst' = ?N * ?c"
    using wr Suc.prems(1) by (simp add: dst'_def selected_of_scan_def SELECTED_COUNT_def)
  have ih: "extract_loop cfg src (Suc i) (dst', Suc i * ?c) =
     Inr (take (Suc i * ?c) dst' @ concat (map (selected_of_scan cfg src) [Suc i..<?N]), ?N * ?c)"
    using Suc.hyps lt len' by (intro Suc.hyps(1)) auto
  have tk: "take (Suc i * ?c) dst' = take (i * ?c) dst @ selected_of_scan cfg src i"
    using wr by (simp add: dst'_def selected_of_scan_def SELECTED_COUNT_def)
  have unf: "extract_loop cfg src i (dst, i * ?c) = extract_loop cfg src (Suc i) (dst', Suc i * ?c)"
    by (subst extract_loop.simps) (simp add: lt scan)
  show ?case unfolding unf ih tk using lt by (simp add: upt_conv_Cons)
qed

lemma extract_selected_channels_ok:
  assumes "length src = BUFFER_SAMPLES cfg * TOTAL_HW_CHANNELS cfg"
    and "selection_ok cfg"
    and "length dst = BUFFER_SAMPLES cfg * SELECTED_COUNT cfg"
  shows "extract_selected_channels cfg src dst = Inr (selected_samples cfg src)"
  using extract_loop_ok[OF assms, of 0]
  by (simp add: extract_selected_channels_def selected_samples_def)

lemma length_selected_samples:
  "length (selected_samples cfg src) = BUFFER_SAMPLES cfg * SELECTED_COUNT cfg"
  by (simp add: selected_samples_def selected_of_scan_def SELECTED_COUNT_def length_concat
      comp_def sum_list_triv)

lemma concat_blocks_nth:
  assumes "\<And>j. j < n \<Longrightarrow> length (f j) = c" "i < n" "k < c"
  shows "concat (map f [0..<n]) ! (i * c + k) = f i ! k"
  using assms
proof (induction n)
  case 0
  then show ?case by simp
next
  case (Suc n)
  have "map (\<lambda>j. length (f j)) [0..<n] = map (\<lambda>j. c) [0..<n]"
    using Suc.prems(1) by (intro map_cong) simp_all
  then have "sum_list (map (\<lambda>j. length (f j)) [0..<n]) = sum_list (map (\<lambda>j. c) [0..<n])"
    by (rule arg_cong)
  then have len: "length (concat (map f [0..<n])) = n * c"
    by (simp add: length_concat comp_def sum_list_triv)
  show ?case
  proof (cases "i < n")
    case True
    then have "Suc i * c \<le> n * c" by (intro mult_le_mono1) simp
    then have "i * c + k < n * c" using Suc.prems(3) by simp
    then show ?thesis using Suc True len by (simp add: nth_append)
  next
    case False
    then have "i = n" using Suc.prems(2) by simp
    then show ?thesis using len Suc.prems by (simp add: nth_append)
  qed
qed

lemma selected_samples_nth:
  assumes "i < BUFFER_SAMPLES cfg" "k < SELECTED_COUNT cfg"
  shows "selected_samples cfg src ! (i * SELECTED_COUNT cfg + k) =
         src ! (i * TOTAL_HW_CHANNELS cfg + SELECTED_IDX cfg ! k)"
proof -
  have "selected_samples cfg src ! (i * SELECTED_COUNT cfg + k) = selected_of_scan cfg src i ! k"
    unfolding selected_samples_def using assms
    by (intro concat_blocks_nth) (simp_all add: selected_of_scan_def SELECTED_COUNT_def)
  then show ?thesis using assms by (simp add: selected_of_scan_def SELECTED_COUNT_def)
qed

lemma selected_samples_scenario:
  "selected_samples scenario_config scenario_half = [20, 40, 21, 41]"
  by code_simp

text \<open>
  C1. For every half-buffer of \<open>BUFFER_SAMPLES\<close> scans of \<open>TOTAL_HW_CHANNELS\<close>
  interleaved 16-bit samples and every selection whose entries are below
  \<open>TOTAL_HW_CHANNELS\<close>, extraction returns without a fault, its output has exactly
  \<open>BUFFER_SAMPLES * SELECTED_COUNT\<close> samples, and slot \<open>i * SELECTED_COUNT + k\<close> holds
  \<open>src[i * TOTAL_HW_CHANNELS + SELECTED_IDX[k]]\<close>. In particular selection \<open>{1,3}\<close>
  over 4 channels and 2 scans maps \<open>[10,20,30,40, 11,21,31,41]\<close> to \<open>[20,40, 21,41]\<close>.
\<close>

theorem extract_selected_channels_correct:
  "(length src = BUFFER_SAMPLES cfg * TOTAL_HW_CHANNELS cfg \<and> selection_ok cfg
      \<and> length dst = BUFFER_SAMPLES cfg * SELECTED_COUNT cfg \<longrightarrow>
    (\<exists>out. extract_selected_channels cfg src dst = Inr out
       \<and> length out = BUFFER_SAMPLES cfg * SELECTED_COUNT cfg
       \<and> (\<forall>i<BUFFER_SAMPLES cfg. \<forall>k<SELECTED_COUNT cfg.
             out ! (i * SELECTED_COUNT cfg + k)
               = src ! (i * TOTAL_HW_CHANNELS cfg + SELECTED_IDX cfg ! k))))
   \<and> (length dst4 = 4 \<longrightarrow>
        extract_selected_channels scenario_config scenario_half dst4 = Inr [20, 40, 21, 41])"
proof (intro conjI impI)
  assume h: "length src = BUFFER_SAMPLES cfg * TOTAL_HW_CHANNELS cfg \<and> selection_ok cfg
      \<and> length dst = BUFFER_SAMPLES cfg * SELECTED_COUNT cfg"
  then have "extract_selected_channels cfg src dst = Inr (selected_samples cfg src)"
    by (intro extract_selected_channels_ok) simp_all
  then show "\<exists>out. extract_selected_channels cfg src dst = Inr out
       \<and> length out = BUFFER_SAMPLES cfg * SELECTED_COUNT cfg
       \<and> (\<forall>i<BUFFER_SAMPLES cfg. \<forall>k<SELECTED_COUNT cfg.
             out ! (i * SELECTED_COUNT cfg + k)
               = src ! (i * TOTAL_HW_CHANNELS cfg + SELECTED_IDX cfg ! k))"
    by (simp add: length_selected_samples selected_samples_nth)
next
  assume "length dst4 = 4"
  then have "extract_selected_channels scenario_config scenario_half dst4
               = Inr (selected_samples scenario_config scenario_half)"
    by (intro extract_selected_channels_ok)
       (simp_all add: scenario_config_def scenario_half_def selection_ok_def SELECTED_COUNT_def)
  then show "extract_selected_channels scenario_config scenario_half dst4 = Inr [20, 40, 21, 41]"
    by (simp add: selected_samples_scenario)
qed

theorem extract_selected_channels_scenario:
  "length scenario_half = BUFFER_SAMPLES scenario_config * TOTAL_HW_CHANNELS scenario_config
   \<and> selection_ok scenario_config
   \<and> length [0, 0, 0, 0 :: U16] = BUFFER_SAMPLES scenario_config * SELECTED_COUNT scenario_config
   \<and> (\<exists>out. extract_selected_channels scenario_config scenario_half [0, 0, 0, 0] = Inr out
         \<and> length out = 4 \<and> out ! (1 * 2 + 1) = scenario_half ! (1 * 4 + 3))
   \<and> extract_selected_channels scenario_config scenario_half [0, 0, 0, 0] = Inr [20, 40, 21, 41]"
  using extract_selected_channels_correct
          [of scenario_half scenario_config "[0, 0, 0, 0]" "[0, 0, 0, 0]"]
  by (simp add: scenario_config_def scenario_half_def selection_ok_def SELECTED_COUNT_def)

section \<open>What each primitive leaves alone\<close>

lemma do_io_simps [simp]:
  "heap (do_io op w) = heap w"
  "heap_next (do_io op w) = heap_next w"
  "g_data_buffer (do_io op w) = g_data_buffer w"
  "g_buffered_count (do_io op w) = g_buffered_count w"
  "console (do_io op w) = console w"
  "files (do_io op w) = apply_op op (files w)"
  "io_log (do_io op w) = io_log w @ [op]"
  by (simp_all add: do_io_def)

lemma printf_simps [simp]:
  "heap (printf m w) = heap w"
  "heap_next (printf m w) = heap_next w"
  "g_data_buffer (printf m w) = g_data_buffer w"
  "g_buffered_count (printf m w) = g_buffered_count w"
  "console (printf m w) = console w @ [m]"
  "files (printf m w) = files w"
  "io_log (printf m w) = io_log w"
  by (simp_all add: printf_def)

lemma batch_part_do_io [simp]: "batch_part (do_io op w) = batch_part w"
  by (simp add: batch_part_def)

lemma batch_part_fwrite [simp]: "batch_part (fwrite bs f w) = batch_part w"
  by (simp add: fwrite_def)

lemma batch_part_fclose [simp]: "batch_part (fclose f w) = batch_part w"
  by (simp add: fclose_def)

lemma batch_part_MoveFileExA [simp]: "batch_part (MoveFileExA a b ok w) = batch_part w"
  by (simp add: MoveFileExA_def)

lemma batch_part_fopen_wb [simp]: "batch_part (snd (fopen_wb path ok w)) = batch_part w"
  by (simp add: fopen_wb_def)

lemma realloc_batch_part: "realloc p n ok w = Inr (q, w') \<Longrightarrow> batch_part w' = batch_part w"
  by (auto simp: realloc_def batch_part_def Let_def split: if_splits)

lemma free_batch_part: "free p w = Inr w' \<Longrightarrow> batch_part w' = batch_part w"
  by (auto simp: free_def batch_part_def split: if_splits)

lemma memcpy_batch_part: "memcpy p off src n w = Inr w' \<Longrightarrow> batch_part w' = batch_part w"
  by (auto simp: memcpy_def batch_part_def split: option.splits if_splits)

lemma alloc_failed_batch_part:
  "alloc_failed s w = Inr s' \<Longrightarrow> batch_part (wld s') = batch_part w"
  by (auto simp: alloc_failed_def split: sum.splits dest: free_batch_part)

lemma append_chunk_batch_part:
  "append_chunk cfg q s w = Inr s' \<Longrightarrow> batch_part (wld s') = batch_part w"
  by (auto simp: append_chunk_def split: sum.splits option.splits dest: memcpy_batch_part)

lemma half_ready_batch_part:
  assumes "half_ready cfg p s = Inr s'"
  shows "batch_part (wld s') = batch_part (wld s)"
proof -
  from assms obtain work q w s1 where
    r: "realloc (current_acq_buffer s) (current_acq_size s + sel_chunk_bytes cfg) (realloc_ok p) (wld s) = Inr (q, w)"
    and b: "(if q = NULL then alloc_failed (s\<lparr>sel_work := work\<rparr>) w
             else append_chunk cfg q (s\<lparr>sel_work := work\<rparr>) w) = Inr s1"
    and s': "s' = s1\<lparr>current_buffer_idx := 1 - current_buffer_idx s1\<rparr>"
    by (auto simp: half_ready_def Let_def split: sum.splits prod.splits)
  from b have "batch_part (wld s1) = batch_part w"
    by (auto split: if_splits dest: alloc_failed_batch_part append_chunk_batch_part)
  with r s' show ?thesis by (simp add: realloc_batch_part)
qed

lemma drain_iteration_batch_part:
  "drain_iteration cfg p s = Inr s' \<Longrightarrow> batch_part (wld s') = batch_part (wld s)"
  by (auto simp: drain_iteration_def split: sum.splits if_splits dest: half_ready_batch_part)

lemma drain_loop_batch_part:
  "drain_loop cfg ps s = Inr s' \<Longrightarrow> batch_part (wld s') = batch_part (wld s)"
proof (induction ps arbitrary: s)
  case Nil
  then show ?case by (simp split: if_splits)
next
  case (Cons p ps)
  show ?case
  proof (cases "g_fStop s")
    case True
    with Cons.prems show ?thesis by simp
  next
    case False
    with Cons.prems obtain s1 where
      a: "drain_iteration cfg p s = Inr s1" and b: "drain_loop cfg ps s1 = Inr s'"
      by (auto split: sum.splits)
    from Cons.IH [OF b] drain_iteration_batch_part [OF a] show ?thesis by simp
  qed
qed

lemma publish_live_batch_part [simp]: "batch_part (publish_live ok s) = batch_part (wld s)"
  by (simp add: publish_live_def split: option.splits)

section \<open>The flush and the batch\<close>

lemma fwrite_simps [simp]:
  "heap (fwrite bs f w) = heap w"
  "heap_next (fwrite bs f w) = heap_next w"
  "g_data_buffer (fwrite bs f w) = g_data_buffer w"
  "g_buffered_count (fwrite bs f w) = g_buffered_count w"
  "console (fwrite bs f w) = console w"
  by (simp_all add: fwrite_def)

lemma fclose_simps [simp]:
  "heap (fclose f w) = heap w"
  "heap_next (fclose f w) = heap_next w"
  "g_data_buffer (fclose f w) = g_data_buffer w"
  "g_buffered_count (fclose f w) = g_buffered_count w"
  "console (fclose f w) = console w"
  by (simp_all add: fclose_def)

lemma fwrite_block_frame:
  "fwrite_block p n f w = Inr w' \<Longrightarrow>
     g_data_buffer w' = g_data_buffer w \<and> g_buffered_count w' = g_buffered_count w"
  by (auto simp: fwrite_block_def split: if_splits option.splits)

lemma free_frame:
  "free p w = Inr w' \<Longrightarrow>
     g_data_buffer w' = g_data_buffer w \<and> g_buffered_count w' = g_buffered_count w"
  by (auto simp: free_def split: if_splits)

lemma write_event_frame:
  assumes "write_event f i w = Inr w'"
  shows "length (g_data_buffer w') = length (g_data_buffer w)
         \<and> g_buffered_count w' = g_buffered_count w"
proof -
  from assms obtain w1 w2 where
    a: "fwrite_block (data (g_data_buffer w ! i)) (size' (g_data_buffer w ! i)) f w = Inr w1"
    and b: "free (data (g_data_buffer w1 ! i)) w1 = Inr w2"
    and c: "w' = w2\<lparr>g_data_buffer := (g_data_buffer w2)[i := \<lparr>data = NULL, size' = 0\<rparr>]\<rparr>"
    by (auto simp: write_event_def split: if_splits sum.splits)
  from fwrite_block_frame [OF a] free_frame [OF b] c show ?thesis by simp
qed

lemma write_events_frame:
  "write_events f n i w = Inr w' \<Longrightarrow>
     length (g_data_buffer w') = length (g_data_buffer w)
     \<and> g_buffered_count w' = g_buffered_count w"
proof (induction f n i w rule: write_events.induct)
  case (1 f n i w)
  show ?case
  proof (cases "i < n")
    case True
    with "1.prems" obtain w1 where
      a: "write_event f i w = Inr w1" and b: "write_events f n (Suc i) w1 = Inr w'"
      by (subst (asm) write_events.simps) (auto split: sum.splits)
    from "1.IH" [OF True a b] write_event_frame [OF a] show ?thesis by simp
  next
    case False
    with "1.prems" show ?thesis by (subst (asm) write_events.simps) simp
  qed
qed

lemma save_batch_to_file_empty:
  "g_buffered_count w = 0 \<Longrightarrow> save_batch_to_file t ok w = Inr w"
  by (simp add: save_batch_to_file_def)

lemma save_batch_to_file_not_opened:
  "g_buffered_count w \<noteq> 0 \<Longrightarrow>
   save_batch_to_file t False w =
     Inr (printf (''KRITIS: Gagal membuat file batch log: ''
                  @ log_filepath t (g_buffered_count w) @ ''\<newline>'') w)"
  by (simp add: save_batch_to_file_def fopen_wb_def)

lemma save_batch_to_file_opened:
  assumes "save_batch_to_file t True w = Inr w'"
  shows "g_buffered_count w' = 0 \<and> length (g_data_buffer w') = length (g_data_buffer w)"
proof (cases "g_buffered_count w = 0")
  case True
  with assms show ?thesis by (simp add: save_batch_to_file_def)
next
  case False
  with assms obtain w1 where
    a: "write_events (log_filepath t (g_buffered_count w)) (g_buffered_count w) 0
          (fwrite (batch_header t (g_buffered_count w)) (log_filepath t (g_buffered_count w))
             (do_io (Fopen (log_filepath t (g_buffered_count w))) w)) = Inr w1"
    and b: "w' = (printf (''Batch '' @ fmt_d 0 (int (g_buffered_count w1))
                               @ '' event disimpan ke '' @ log_filepath t (g_buffered_count w)
                               @ '' (header+data)\<newline>'')
                        (fclose (log_filepath t (g_buffered_count w)) w1))\<lparr>g_buffered_count := 0\<rparr>"
    by (auto simp: save_batch_to_file_def fopen_wb_def split: sum.splits)
  from write_events_frame [OF a] b show ?thesis by simp
qed

lemma batch_append_Inr:
  "g_buffered_count w < length (g_data_buffer w) \<Longrightarrow>
   batch_append p n w =
     Inr (w\<lparr>g_data_buffer := (g_data_buffer w)[g_buffered_count w := \<lparr>data = p, size' = n\<rparr>],
            g_buffered_count := Suc (g_buffered_count w)\<rparr>)"
  by (simp add: batch_append_def)

lemma batch_append_full:
  "\<not> g_buffered_count w < length (g_data_buffer w) \<Longrightarrow> batch_append p n w = Inl OutOfBounds"
  by (simp add: batch_append_def)

lemma store_event_inv:
  assumes inv: "batch_inv cfg w" and ok: "log_fopen_ok ev"
    and st: "store_event cfg ev s w = Inr w'"
  shows "batch_inv cfg w'"
proof (cases "current_acq_buffer s \<noteq> NULL \<and> current_acq_size s > 0")
  case False
  with st inv show ?thesis by (auto simp: store_event_def)
next
  case True
  let ?w1 = "w\<lparr>g_data_buffer := (g_data_buffer w)[g_buffered_count w :=
                 \<lparr>data = current_acq_buffer s, size' = current_acq_size s\<rparr>],
               g_buffered_count := Suc (g_buffered_count w)\<rparr>"
  have app: "batch_append (current_acq_buffer s) (current_acq_size s) w = Inr ?w1"
    using inv by (intro batch_append_Inr) (simp add: batch_inv_def)
  show ?thesis
  proof (cases "Suc (g_buffered_count w) \<ge> MAX_EVENT_BATCH cfg")
    case False
    with st True app inv show ?thesis by (auto simp: store_event_def batch_inv_def)
  next
    case full: True
    with st True app ok have "save_batch_to_file (flush_time ev) True ?w1 = Inr w'"
      by (simp add: store_event_def)
    from save_batch_to_file_opened [OF this] inv show ?thesis
      by (simp add: batch_inv_def)
  qed
qed

lemma batch_inv_cong:
  "batch_part w' = batch_part w \<Longrightarrow> batch_inv cfg w' = batch_inv cfg w"
  by (simp add: batch_part_def batch_inv_def)

lemma acquire_event_driver_error:
  "driver_error ev \<Longrightarrow> acquire_event cfg ev w = Inl ProcessExit"
  by (simp add: acquire_event_def)

lemma acquire_event_esc_while_armed:
  "\<not> driver_error ev \<Longrightarrow> esc_while_armed ev \<Longrightarrow> acquire_event cfg ev w = Inr (True, w)"
  by (simp add: acquire_event_def)

lemma acquire_event_no_sel_work:
  "\<not> driver_error ev \<Longrightarrow> \<not> esc_while_armed ev \<Longrightarrow> \<not> sel_work_ok ev \<Longrightarrow>
   acquire_event cfg ev w = Inl ProcessExit"
  by (simp add: acquire_event_def split: prod.splits)

lemma acquire_event_run:
  "\<not> driver_error ev \<Longrightarrow> \<not> esc_while_armed ev \<Longrightarrow> sel_work_ok ev \<Longrightarrow>
   acquire_event cfg ev w =
     (case drain_loop cfg (polls ev)
             (drain_start cfg (fst (fopen_wb live_filepath_tmp (live_fopen_ok ev) w))
                (snd (fopen_wb live_filepath_tmp (live_fopen_ok ev) w))) of
        Inl e \<Rightarrow> Inl e
      | Inr s \<Rightarrow>
          (case store_event cfg ev s (publish_live (move_ok ev) s) of
             Inl e \<Rightarrow> Inl e
           | Inr w' \<Rightarrow> Inr (exit_now s, w')))"
  by (simp add: acquire_event_def split: prod.splits)

lemma acquire_event_cases:
  assumes "acquire_event cfg ev w = Inr (ex, w')"
  obtains (armed) "esc_while_armed ev" "ex" "w' = w"
  | (ran) s where "\<not> driver_error ev" "\<not> esc_while_armed ev" "sel_work_ok ev"
      "drain_loop cfg (polls ev)
         (drain_start cfg (fst (fopen_wb live_filepath_tmp (live_fopen_ok ev) w))
            (snd (fopen_wb live_filepath_tmp (live_fopen_ok ev) w))) = Inr s"
      "store_event cfg ev s (publish_live (move_ok ev) s) = Inr w'" "ex = exit_now s"
proof (cases "driver_error ev")
  case True
  with assms show ?thesis by (simp add: acquire_event_driver_error)
next
  case de: False
  show ?thesis
  proof (cases "esc_while_armed ev")
    case True
    with assms de armed show ?thesis by (simp add: acquire_event_esc_while_armed)
  next
    case ea: False
    show ?thesis
    proof (cases "sel_work_ok ev")
      case False
      with assms de ea show ?thesis by (simp add: acquire_event_no_sel_work)
    next
      case True
      from assms obtain s where
        "drain_loop cfg (polls ev)
           (drain_start cfg (fst (fopen_wb live_filepath_tmp (live_fopen_ok ev) w))
              (snd (fopen_wb live_filepath_tmp (live_fopen_ok ev) w))) = Inr s"
        "store_event cfg ev s (publish_live (move_ok ev) s) = Inr w'" "ex = exit_now s"
        unfolding acquire_event_run [OF de ea True] by (auto split: sum.splits)
      then show ?thesis by (rule ran [OF de ea True])
    qed
  qed
qed

lemma acquire_event_inv:
  assumes inv: "batch_inv cfg w" and ok: "log_fopen_ok ev"
    and ac: "acquire_event cfg ev w = Inr (ex, w')"
  shows "batch_inv cfg w'"
  using ac
proof (cases rule: acquire_event_cases)
  case armed
  with inv show ?thesis by simp
next
  case (ran s)
  from drain_loop_batch_part [OF ran(4)]
  have "batch_part (publish_live (move_ok ev) s) = batch_part w"
    by (simp add: drain_start_def)
  then have "batch_inv cfg (publish_live (move_ok ev) s)"
    using inv by (simp only: batch_inv_cong [of "publish_live (move_ok ev) s" w])
  from store_event_inv [OF this ok ran(5)] show ?thesis .
qed

lemma event_loop_inv:
  assumes "batch_inv cfg w" "\<forall>ev\<in>set evs. log_fopen_ok ev"
    and "event_loop cfg evs w = Inr (ex, w')"
  shows "batch_inv cfg w'"
  using assms
proof (induction evs arbitrary: w)
  case Nil
  then show ?case by simp
next
  case (Cons ev evs)
  from Cons.prems(3) obtain ex1 w1 where
    a: "acquire_event cfg ev w = Inr (ex1, w1)"
    and b: "if ex1 then w' = w1 else event_loop cfg evs w1 = Inr (ex, w')"
    by (auto split: sum.splits if_splits)
  have inv1: "batch_inv cfg w1"
    using acquire_event_inv [OF Cons.prems(1) _ a] Cons.prems(2) by simp
  show ?case
  proof (cases ex1)
    case True
    with b inv1 show ?thesis by simp
  next
    case False
    with b have "event_loop cfg evs w1 = Inr (ex, w')" by simp
    from Cons.IH [OF inv1 _ this] Cons.prems(2) show ?thesis by simp
  qed
qed

lemma batch_inv_initial:
  "0 < MAX_EVENT_BATCH cfg \<Longrightarrow> batch_inv cfg (initial_world cfg fs)"
  by (simp add: batch_inv_def initial_world_def)

section \<open>One pass of the drain loop, step by step\<close>

lemma length_bytes_of_samples [simp]: "length (bytes_of_samples xs) = 2 * length xs"
  by (induction xs) (simp_all add: bytes_of_samples_def bytes_of_U16_def)

lemma length_extract_bytes [simp]: "length (extract_bytes cfg src) = sel_chunk_bytes cfg"
  by (simp add: extract_bytes_def length_selected_samples sel_chunk_bytes_def sel_chunk_samps_def)

lemma length_selected_samples_chunk [simp]:
  "length (selected_samples cfg src) = sel_chunk_samps cfg"
  by (simp add: length_selected_samples sel_chunk_samps_def)

lemma heap_next_heap_update:
  "w\<lparr>heap_next := n, heap := h\<rparr> = w\<lparr>heap := h, heap_next := n\<rparr>"
  by (cases w) simp

lemma take_extract_bytes [simp]:
  "take (sel_chunk_bytes cfg) (bytes_of_samples (selected_samples cfg src))
   = bytes_of_samples (selected_samples cfg src)"
  using length_extract_bytes [of cfg src] by (simp add: extract_bytes_def)

lemma poll_ok_due: "poll_ok cfg p \<Longrightarrow>
  length (due_buffer idx p) = BUFFER_SAMPLES cfg * TOTAL_HW_CHANNELS cfg"
  by (simp add: poll_ok_def due_buffer_def)

lemma realloc_failed:
  "p = NULL \<or> heap w p \<noteq> None \<Longrightarrow> realloc p n False w = Inr (NULL, w)"
  by (auto simp: realloc_def)

lemma realloc_grown:
  assumes "p = NULL \<and> acc = [] \<or> p \<noteq> NULL \<and> heap w p = Some acc"
  shows "realloc p (length acc + k) True w =
     Inr (heap_next w,
          w\<lparr>heap := (release p (heap w))(heap_next w \<mapsto> acc @ replicate k (CHR 0x00)),
            heap_next := Suc (heap_next w)\<rparr>)"
  using assms by (auto simp: realloc_def release_def Let_def)

lemma free_released:
  "p = NULL \<or> heap w p \<noteq> None \<Longrightarrow> free p w = Inr (w\<lparr>heap := release p (heap w)\<rparr>)"
  by (auto simp: free_def release_def)

lemma memcpy_tail:
  assumes "heap w q = Some (acc @ replicate k z)" "length bs = k"
  shows "memcpy q (length acc) bs k w = Inr (w\<lparr>heap := (heap w)(q \<mapsto> acc @ bs)\<rparr>)"
  using assms by (simp add: memcpy_def)

lemma half_ready_extract:
  assumes "poll_ok cfg p" "selection_ok cfg" "length (sel_work s) = sel_chunk_samps cfg"
  shows "extract_selected_channels cfg (due_buffer (current_buffer_idx s) p) (sel_work s)
         = Inr (selected_samples cfg (due_buffer (current_buffer_idx s) p))"
  using assms
  by (intro extract_selected_channels_ok) (simp_all add: poll_ok_due sel_chunk_samps_def)

lemma acq_bytes_cases:
  assumes "acq_bytes s = Some acc"
  shows "current_acq_buffer s = NULL \<and> acc = []
         \<or> current_acq_buffer s \<noteq> NULL \<and> heap (wld s) (current_acq_buffer s) = Some acc"
  using assms by (auto simp: acq_bytes_def split: if_splits)

lemma half_ready_grow:
  assumes pk: "poll_ok cfg p" and sel: "selection_ok cfg"
    and sw: "length (sel_work s) = sel_chunk_samps cfg"
    and acc: "acq_bytes s = Some acc" and len: "length acc = current_acq_size s"
    and nn: "heap_next (wld s) \<noteq> NULL"
    and ok: "realloc_ok p"
  shows "half_ready cfg p s =
     Inr (s\<lparr>sel_work := selected_samples cfg (due_buffer (current_buffer_idx s) p),
            current_acq_buffer := heap_next (wld s),
            current_acq_size := current_acq_size s + sel_chunk_bytes cfg,
            wld := live_mirror (f_out_live s)
                     (extract_bytes cfg (due_buffer (current_buffer_idx s) p))
                     ((wld s)\<lparr>heap := (release (current_acq_buffer s) (heap (wld s)))
                                  (heap_next (wld s) \<mapsto>
                                     acc @ extract_bytes cfg (due_buffer (current_buffer_idx s) p)),
                               heap_next := Suc (heap_next (wld s))\<rparr>),
            current_buffer_idx := 1 - current_buffer_idx s\<rparr>)"
proof -
  let ?src = "due_buffer (current_buffer_idx s) p"
  let ?q = "heap_next (wld s)"
  let ?w1 = "(wld s)\<lparr>heap := (release (current_acq_buffer s) (heap (wld s)))
                        (?q \<mapsto> acc @ replicate (sel_chunk_bytes cfg) (CHR 0x00)),
                     heap_next := Suc ?q\<rparr>"
  let ?s1 = "s\<lparr>sel_work := selected_samples cfg ?src\<rparr>"
  have ex: "extract_selected_channels cfg ?src (sel_work s) = Inr (selected_samples cfg ?src)"
    by (rule half_ready_extract [OF pk sel sw])
  have re: "realloc (current_acq_buffer s) (current_acq_size s + sel_chunk_bytes cfg)
              (realloc_ok p) (wld s) = Inr (?q, ?w1)"
    using realloc_grown [OF acq_bytes_cases [OF acc], of "sel_chunk_bytes cfg"] ok len by simp
  have mc: "memcpy ?q (current_acq_size s) (bytes_of_samples (sel_work ?s1))
              (sel_chunk_bytes cfg) ?w1
            = Inr (?w1\<lparr>heap := (heap ?w1)(?q \<mapsto> acc @ extract_bytes cfg ?src)\<rparr>)"
  proof -
    have h: "heap ?w1 ?q = Some (acc @ replicate (sel_chunk_bytes cfg) (CHR 0x00))" by simp
    have lb: "length (extract_bytes cfg ?src) = sel_chunk_bytes cfg" by simp
    from memcpy_tail [OF h lb] len show ?thesis by (simp add: extract_bytes_def)
  qed
  have ac: "append_chunk cfg ?q ?s1 ?w1 =
     Inr (?s1\<lparr>current_acq_buffer := ?q,
              current_acq_size := current_acq_size s + sel_chunk_bytes cfg,
              wld := live_mirror (f_out_live s) (extract_bytes cfg ?src)
                       (?w1\<lparr>heap := (heap ?w1)(?q \<mapsto> acc @ extract_bytes cfg ?src)\<rparr>)\<rparr>)"
    using mc by (simp add: append_chunk_def live_mirror_def extract_bytes_def split: option.splits)
  show ?thesis
    unfolding half_ready_def due_buffer_def [symmetric] Let_def ex re
    using nn ac by (simp add: heap_next_heap_update)
qed

lemma half_ready_fail:
  assumes pk: "poll_ok cfg p" and sel: "selection_ok cfg"
    and sw: "length (sel_work s) = sel_chunk_samps cfg"
    and acc: "acq_bytes s = Some acc"
    and ok: "\<not> realloc_ok p"
  shows "half_ready cfg p s =
     Inr (s\<lparr>sel_work := selected_samples cfg (due_buffer (current_buffer_idx s) p),
            current_acq_buffer := NULL, current_acq_size := 0, g_fStop := True,
            wld := (wld s)\<lparr>heap := release (current_acq_buffer s) (heap (wld s))\<rparr>,
            current_buffer_idx := 1 - current_buffer_idx s\<rparr>)"
proof -
  let ?src = "due_buffer (current_buffer_idx s) p"
  let ?s1 = "s\<lparr>sel_work := selected_samples cfg ?src\<rparr>"
  have live: "current_acq_buffer s = NULL \<or> heap (wld s) (current_acq_buffer s) \<noteq> None"
    using acq_bytes_cases [OF acc] by auto
  have ex: "extract_selected_channels cfg ?src (sel_work s) = Inr (selected_samples cfg ?src)"
    by (rule half_ready_extract [OF pk sel sw])
  have re: "realloc (current_acq_buffer s) (current_acq_size s + sel_chunk_bytes cfg)
              (realloc_ok p) (wld s) = Inr (NULL, wld s)"
    using realloc_failed [OF live] ok by simp
  have af: "alloc_failed ?s1 (wld s) =
     Inr (?s1\<lparr>current_acq_buffer := NULL, current_acq_size := 0, g_fStop := True,
              wld := (wld s)\<lparr>heap := release (current_acq_buffer s) (heap (wld s))\<rparr>\<rparr>)"
    using free_released [OF live] by (simp add: alloc_failed_def)
  show ?thesis
    unfolding half_ready_def due_buffer_def [symmetric] Let_def ex re
    using af by simp
qed


lemma live_mirror_simps [simp]:
  "heap (live_mirror f bs w) = heap w"
  "heap_next (live_mirror f bs w) = heap_next w"
  "g_data_buffer (live_mirror f bs w) = g_data_buffer w"
  "g_buffered_count (live_mirror f bs w) = g_buffered_count w"
  "console (live_mirror f bs w) = console w"
  by (simp_all add: live_mirror_def split: option.splits)

text \<open>A pass that finds a half-buffer ready and can grow the event buffer.\<close>

lemma drain_iteration_grow:
  assumes "selection_ok cfg" "poll_ok cfg p" "halfReady p" "realloc_ok p"
    and "drain_inv cfg s" "acq_bytes s = Some acc"
  shows "drain_iteration cfg p s =
     Inr (s\<lparr>sel_work := selected_samples cfg (due_buffer (current_buffer_idx s) p),
            current_acq_buffer := heap_next (wld s),
            current_acq_size := current_acq_size s + sel_chunk_bytes cfg,
            wld := live_mirror (f_out_live s)
                     (extract_bytes cfg (due_buffer (current_buffer_idx s) p))
                     ((wld s)\<lparr>heap := (release (current_acq_buffer s) (heap (wld s)))
                                  (heap_next (wld s) \<mapsto>
                                     acc @ extract_bytes cfg (due_buffer (current_buffer_idx s) p)),
                               heap_next := Suc (heap_next (wld s))\<rparr>),
            current_buffer_idx := 1 - current_buffer_idx s,
            g_fStop := fStop p \<or> esc p, exit_now := exit_now s \<or> esc p\<rparr>)"
proof -
  let ?s0 = "s\<lparr>g_fStop := fStop p\<rparr>"
  have "acq_bytes ?s0 = acq_bytes s" by (simp add: acq_bytes_def)
  then have a: "acq_bytes ?s0 = Some acc" using assms(6) by simp
  have l: "length acc = current_acq_size ?s0" "length (sel_work ?s0) = sel_chunk_samps cfg"
    "heap_next (wld ?s0) \<noteq> NULL"
    using assms(5,6) by (simp_all add: drain_inv_def)
  show ?thesis
    unfolding drain_iteration_def
    using half_ready_grow [OF assms(2,1) l(2) a l(1) l(3) assms(4)] assms(3)
    by simp
qed

text \<open>A pass that finds a half-buffer ready and cannot grow the event buffer.\<close>

lemma drain_iteration_fail:
  assumes "selection_ok cfg" "poll_ok cfg p" "halfReady p" "\<not> realloc_ok p"
    and "drain_inv cfg s"
  shows "drain_iteration cfg p s =
     Inr (s\<lparr>sel_work := selected_samples cfg (due_buffer (current_buffer_idx s) p),
            current_acq_buffer := NULL, current_acq_size := 0,
            wld := (wld s)\<lparr>heap := release (current_acq_buffer s) (heap (wld s))\<rparr>,
            current_buffer_idx := 1 - current_buffer_idx s,
            g_fStop := True, exit_now := exit_now s \<or> esc p\<rparr>)"
proof -
  let ?s0 = "s\<lparr>g_fStop := fStop p\<rparr>"
  from assms(5) obtain acc where "acq_bytes s = Some acc"
    by (auto simp: drain_inv_def split: option.splits)
  moreover have "acq_bytes ?s0 = acq_bytes s" by (simp add: acq_bytes_def)
  ultimately have a: "acq_bytes ?s0 = Some acc" by simp
  have l: "length (sel_work ?s0) = sel_chunk_samps cfg"
    using assms(5) by (simp add: drain_inv_def)
  show ?thesis
    unfolding drain_iteration_def
    using half_ready_fail [OF assms(2,1) l a assms(4)] assms(3)
    by simp
qed

text \<open>A pass that finds no half-buffer ready.\<close>

lemma drain_iteration_idle:
  "\<not> halfReady p \<Longrightarrow>
   drain_iteration cfg p s = Inr (s\<lparr>g_fStop := fStop p \<or> esc p, exit_now := exit_now s \<or> esc p\<rparr>)"
  by (cases s) (simp add: drain_iteration_def)

lemma drain_inv_start:
  "heap_next w \<noteq> NULL \<Longrightarrow> drain_inv cfg (drain_start cfg f w)"
  by (simp add: drain_inv_def drain_start_def acq_bytes_def)

section \<open>The event buffer is the concatenation of the extracted half-buffers\<close>

text \<open>The index of the buffer that is due after a poll.\<close>

lemma calm_step:
  assumes sel: "selection_ok cfg" and calm: "calm_poll cfg p"
    and inv: "drain_inv cfg s" and acc: "acq_bytes s = Some acc"
  obtains s1 where "drain_iteration cfg p s = Inr s1" "drain_inv cfg s1"
    "acq_bytes s1 =
       Some (acc @ concat (map (extract_bytes cfg) (delivered (current_buffer_idx s) [p])))"
    "current_buffer_idx s1 = (if halfReady p then 1 - current_buffer_idx s else current_buffer_idx s)"
    "g_fStop s1 = fStop p" "exit_now s1 = exit_now s" "f_out_live s1 = f_out_live s"
proof (cases "halfReady p")
  case True
  let ?s1 = "s\<lparr>sel_work := selected_samples cfg (due_buffer (current_buffer_idx s) p),
            current_acq_buffer := heap_next (wld s),
            current_acq_size := current_acq_size s + sel_chunk_bytes cfg,
            wld := live_mirror (f_out_live s)
                     (extract_bytes cfg (due_buffer (current_buffer_idx s) p))
                     ((wld s)\<lparr>heap := (release (current_acq_buffer s) (heap (wld s)))
                                  (heap_next (wld s) \<mapsto>
                                     acc @ extract_bytes cfg (due_buffer (current_buffer_idx s) p)),
                               heap_next := Suc (heap_next (wld s))\<rparr>),
            current_buffer_idx := 1 - current_buffer_idx s,
            g_fStop := fStop p \<or> esc p, exit_now := exit_now s \<or> esc p\<rparr>"
  have it: "drain_iteration cfg p s = Inr ?s1"
    using calm True by (intro drain_iteration_grow [OF sel _ _ _ inv acc]) (simp_all add: calm_poll_def)
  have nn: "heap_next (wld s) \<noteq> NULL" and len: "length acc = current_acq_size s"
    using inv acc by (simp_all add: drain_inv_def)
  have ab: "acq_bytes ?s1 = Some (acc @ extract_bytes cfg (due_buffer (current_buffer_idx s) p))"
    using nn by (simp add: acq_bytes_def)
  have "drain_inv cfg ?s1"
    unfolding drain_inv_def ab using nn len by (simp add: NULL_def)
  then show ?thesis
    using it ab True calm by (intro that [of ?s1]) (simp_all add: calm_poll_def)
next
  case False
  let ?s1 = "s\<lparr>g_fStop := fStop p \<or> esc p, exit_now := exit_now s \<or> esc p\<rparr>"
  have it: "drain_iteration cfg p s = Inr ?s1"
    using False by (rule drain_iteration_idle)
  have ab: "acq_bytes ?s1 = acq_bytes s" by (simp add: acq_bytes_def)
  have "drain_inv cfg ?s1" using inv unfolding drain_inv_def ab by (simp split: option.splits)
  then show ?thesis
    using it ab acc False calm by (intro that [of ?s1]) (simp_all add: calm_poll_def)
qed

lemma delivered_step:
  "delivered idx (p # ps) =
     delivered idx [p] @ delivered (if halfReady p then 1 - idx else idx) ps"
  by simp

lemma drain_loop_collects:
  assumes sel: "selection_ok cfg"
    and pre: "\<forall>p\<in>set pre. calm_poll cfg p \<and> \<not> fStop p"
    and lst: "calm_poll cfg pz" "fStop pz"
    and inv: "drain_inv cfg s" and run: "\<not> g_fStop s" and acc: "acq_bytes s = Some acc"
  shows "\<exists>s'. drain_loop cfg (pre @ [pz]) s = Inr s'
           \<and> acq_bytes s' =
               Some (acc @ concat (map (extract_bytes cfg)
                                     (delivered (current_buffer_idx s) (pre @ [pz]))))
           \<and> drain_inv cfg s' \<and> g_fStop s' \<and> exit_now s' = exit_now s
           \<and> f_out_live s' = f_out_live s"
  using pre inv run acc
proof (induction pre arbitrary: s acc)
  case Nil
  from calm_step [OF sel lst(1) Nil.prems(2) Nil.prems(4)] obtain s1 where
    s1: "drain_iteration cfg pz s = Inr s1" "drain_inv cfg s1"
    "acq_bytes s1 =
       Some (acc @ concat (map (extract_bytes cfg) (delivered (current_buffer_idx s) [pz])))"
    "g_fStop s1 = fStop pz" "exit_now s1 = exit_now s" "f_out_live s1 = f_out_live s"
    by blast
  have "drain_loop cfg [pz] s = Inr s1"
    using Nil.prems(3) s1(1,4) lst(2) by simp
  with s1 lst(2) show ?case by simp
next
  case (Cons p pre)
  have calm: "calm_poll cfg p" and go: "\<not> fStop p" using Cons.prems(1) by simp_all
  from calm_step [OF sel calm Cons.prems(2) Cons.prems(4)] obtain s1 where
    s1: "drain_iteration cfg p s = Inr s1" "drain_inv cfg s1"
    "acq_bytes s1 =
       Some (acc @ concat (map (extract_bytes cfg) (delivered (current_buffer_idx s) [p])))"
    "current_buffer_idx s1 = (if halfReady p then 1 - current_buffer_idx s else current_buffer_idx s)"
    "g_fStop s1 = fStop p" "exit_now s1 = exit_now s" "f_out_live s1 = f_out_live s"
    by blast
  have unf: "drain_loop cfg ((p # pre) @ [pz]) s = drain_loop cfg (pre @ [pz]) s1"
    using Cons.prems(3) s1(1) by simp
  have "\<exists>s'. drain_loop cfg (pre @ [pz]) s1 = Inr s'
           \<and> acq_bytes s' =
               Some ((acc @ concat (map (extract_bytes cfg) (delivered (current_buffer_idx s) [p])))
                     @ concat (map (extract_bytes cfg)
                                     (delivered (current_buffer_idx s1) (pre @ [pz]))))
           \<and> drain_inv cfg s' \<and> g_fStop s' \<and> exit_now s' = exit_now s1
           \<and> f_out_live s' = f_out_live s1"
    using Cons.prems(1) s1 go by (intro Cons.IH) simp_all
  then obtain s' where s': "drain_loop cfg (pre @ [pz]) s1 = Inr s'"
    "acq_bytes s' =
               Some ((acc @ concat (map (extract_bytes cfg) (delivered (current_buffer_idx s) [p])))
                     @ concat (map (extract_bytes cfg)
                                     (delivered (current_buffer_idx s1) (pre @ [pz]))))"
    "drain_inv cfg s'" "g_fStop s'" "exit_now s' = exit_now s1" "f_out_live s' = f_out_live s1"
    by blast
  have "delivered (current_buffer_idx s) ((p # pre) @ [pz]) =
        delivered (current_buffer_idx s) [p] @ delivered (current_buffer_idx s1) (pre @ [pz])"
    using s1(4) delivered_step [of "current_buffer_idx s" p "pre @ [pz]"] by simp
  then show ?case
    unfolding unf using s' s1(6,7) by simp
qed

text \<open>
  C2. In a trigger cycle without allocation failure and without cancellation, where the
  driver reports the stop with the last poll, the drain loop returns, and the event
  buffer it leaves holds exactly the extracted bytes of the delivered half-buffers,
  concatenated in arrival order; \<open>current_acq_size\<close> is the length of that
  concatenation.
\<close>

theorem drain_loop_concatenates:
  "selection_ok cfg \<and> heap_next w \<noteq> NULL
   \<and> (\<forall>p\<in>set pre. calm_poll cfg p \<and> \<not> fStop p) \<and> calm_poll cfg pz \<and> fStop pz \<longrightarrow>
   (\<exists>s'. drain_loop cfg (pre @ [pz]) (drain_start cfg f w) = Inr s'
      \<and> acq_bytes s' = Some (concat (map (extract_bytes cfg) (delivered 0 (pre @ [pz]))))
      \<and> current_acq_size s'
          = length (concat (map (extract_bytes cfg) (delivered 0 (pre @ [pz])))))"
proof
  assume h: "selection_ok cfg \<and> heap_next w \<noteq> NULL
   \<and> (\<forall>p\<in>set pre. calm_poll cfg p \<and> \<not> fStop p) \<and> calm_poll cfg pz \<and> fStop pz"
  let ?s = "drain_start cfg f w"
  have inv: "drain_inv cfg ?s" using h by (simp add: drain_inv_start)
  have st: "\<not> g_fStop ?s" "acq_bytes ?s = Some []" "current_buffer_idx ?s = 0"
    by (simp_all add: drain_start_def acq_bytes_def)
  from h have a: "selection_ok cfg" and b: "\<forall>p\<in>set pre. calm_poll cfg p \<and> \<not> fStop p"
    and c: "calm_poll cfg pz" and d: "fStop pz" by simp_all
  from drain_loop_collects [OF a b c d inv st(1) st(2)] obtain s' where
    s': "drain_loop cfg (pre @ [pz]) ?s = Inr s'"
    "acq_bytes s' = Some (concat (map (extract_bytes cfg) (delivered 0 (pre @ [pz]))))"
    "drain_inv cfg s'"
    unfolding st(3) by auto
  from s'(2,3) have "current_acq_size s'
          = length (concat (map (extract_bytes cfg) (delivered 0 (pre @ [pz]))))"
    unfolding drain_inv_def by simp
  with s' show "\<exists>s'. drain_loop cfg (pre @ [pz]) (drain_start cfg f w) = Inr s'
      \<and> acq_bytes s' = Some (concat (map (extract_bytes cfg) (delivered 0 (pre @ [pz]))))
      \<and> current_acq_size s'
          = length (concat (map (extract_bytes cfg) (delivered 0 (pre @ [pz]))))"
    by blast
qed

theorem drain_loop_concatenates_two_halves:
  "selection_ok scenario_config \<and> heap_next (initial_world scenario_config no_files) \<noteq> NULL
   \<and> calm_poll scenario_config poll_first \<and> \<not> fStop poll_first
   \<and> calm_poll scenario_config poll_idle \<and> \<not> fStop poll_idle
   \<and> calm_poll scenario_config poll_last \<and> fStop poll_last
   \<and> delivered 0 ([poll_first, poll_idle] @ [poll_last]) = [scenario_half, scenario_half2]
   \<and> (\<exists>s'. drain_loop scenario_config ([poll_first, poll_idle] @ [poll_last])
               (drain_start scenario_config None (initial_world scenario_config no_files)) = Inr s'
      \<and> acq_bytes s'
          = Some (extract_bytes scenario_config scenario_half
                  @ extract_bytes scenario_config scenario_half2)
      \<and> current_acq_size s' = 16)"
  using drain_loop_concatenates
          [of scenario_config "initial_world scenario_config no_files"
              "[poll_first, poll_idle]" poll_last None]
  by (simp add: scenario_config_def selection_ok_def initial_world_def NULL_def calm_poll_def
      poll_ok_def poll_first_def poll_idle_def poll_last_def scenario_half_def scenario_half2_def
      due_buffer_def sel_chunk_bytes_def sel_chunk_samps_def SELECTED_COUNT_def)


section \<open>A flush that cannot open its file\<close>

lemma store_event_not_opened:
  assumes "current_acq_buffer s \<noteq> NULL" "current_acq_size s > 0"
    and "g_buffered_count w < length (g_data_buffer w)"
    and "MAX_EVENT_BATCH cfg \<le> Suc (g_buffered_count w)" "\<not> log_fopen_ok ev"
  shows "store_event cfg ev s w =
     Inr (printf (''KRITIS: Gagal membuat file batch log: ''
                  @ log_filepath (flush_time ev) (Suc (g_buffered_count w)) @ ''\<newline>'')
            (w\<lparr>g_data_buffer := (g_data_buffer w)[g_buffered_count w :=
                   \<lparr>data = current_acq_buffer s, size' = current_acq_size s\<rparr>],
               g_buffered_count := Suc (g_buffered_count w)\<rparr>))"
  using assms
  by (simp add: store_event_def batch_append_Inr save_batch_to_file_not_opened)

lemma store_event_room:
  assumes "current_acq_buffer s \<noteq> NULL" "current_acq_size s > 0"
    and "g_buffered_count w < length (g_data_buffer w)"
    and "Suc (g_buffered_count w) < MAX_EVENT_BATCH cfg"
  shows "store_event cfg ev s w =
     Inr (w\<lparr>g_data_buffer := (g_data_buffer w)[g_buffered_count w :=
                   \<lparr>data = current_acq_buffer s, size' = current_acq_size s\<rparr>],
               g_buffered_count := Suc (g_buffered_count w)\<rparr>)"
  using assms by (simp add: store_event_def batch_append_Inr)

lemma store_event_overflow:
  assumes "current_acq_buffer s \<noteq> NULL" "current_acq_size s > 0"
    and "\<not> g_buffered_count w < length (g_data_buffer w)"
  shows "store_event cfg ev s w = Inl OutOfBounds"
  using assms by (simp add: store_event_def batch_append_full)




section \<open>A run in which no flush can open its file\<close>

lemma MoveFileExA_simps [simp]:
  "heap (MoveFileExA a b ok w) = heap w"
  "heap_next (MoveFileExA a b ok w) = heap_next w"
  "g_data_buffer (MoveFileExA a b ok w) = g_data_buffer w"
  "g_buffered_count (MoveFileExA a b ok w) = g_buffered_count w"
  "console (MoveFileExA a b ok w) = console w"
  by (simp_all add: MoveFileExA_def)

lemma publish_live_simps [simp]:
  "heap (publish_live ok s) = heap (wld s)"
  "heap_next (publish_live ok s) = heap_next (wld s)"
  "g_data_buffer (publish_live ok s) = g_data_buffer (wld s)"
  "g_buffered_count (publish_live ok s) = g_buffered_count (wld s)"
  "console (publish_live ok s) = console (wld s)"
  by (simp_all add: publish_live_def split: option.splits)

lemma fopen_wb_snd_simps [simp]:
  "heap (snd (fopen_wb path ok w)) = heap w"
  "heap_next (snd (fopen_wb path ok w)) = heap_next w"
  "g_data_buffer (snd (fopen_wb path ok w)) = g_data_buffer w"
  "g_buffered_count (snd (fopen_wb path ok w)) = g_buffered_count w"
  "console (snd (fopen_wb path ok w)) = console w"
  by (simp_all add: fopen_wb_def)

lemma calm_full_poll: "calm_poll cfg (full_poll cfg)" "fStop (full_poll cfg)"
  by (simp_all add: calm_poll_def poll_ok_def full_poll_def)

lemma full_poll_drained:
  assumes sel: "selection_ok cfg" and pos: "0 < sel_chunk_bytes cfg"
    and nn: "heap_next w \<noteq> NULL"
  obtains s' where "drain_loop cfg [full_poll cfg] (drain_start cfg f w) = Inr s'"
    "current_acq_buffer s' \<noteq> NULL" "current_acq_size s' > 0" "\<not> exit_now s'"
    "batch_part (wld s') = batch_part w" "heap_next (wld s') \<noteq> NULL"
proof -
  let ?s = "drain_start cfg f w"
  have inv: "drain_inv cfg ?s" using nn by (rule drain_inv_start)
  have st: "\<not> g_fStop ?s" "acq_bytes ?s = Some []" "current_buffer_idx ?s = 0"
    "\<not> exit_now ?s" "wld ?s = w"
    by (simp_all add: drain_start_def acq_bytes_def)
  have "\<forall>p\<in>set []. calm_poll cfg p \<and> \<not> fStop p" by simp
  from drain_loop_collects [OF sel this calm_full_poll inv st(1) st(2)] obtain s' where
    s': "drain_loop cfg [full_poll cfg] ?s = Inr s'"
    "acq_bytes s' = Some (extract_bytes cfg (due_buffer 0 (full_poll cfg)))"
    "drain_inv cfg s'" "exit_now s' = exit_now ?s"
    unfolding st(3) by (auto simp: full_poll_def)
  have sz: "current_acq_size s' = sel_chunk_bytes cfg"
    using s'(2,3) unfolding drain_inv_def by simp
  have "current_acq_buffer s' \<noteq> NULL"
  proof
    assume "current_acq_buffer s' = NULL"
    then have "acq_bytes s' = Some []" by (simp add: acq_bytes_def)
    with s'(2) have "length (extract_bytes cfg (due_buffer 0 (full_poll cfg))) = 0" by simp
    with pos show False by simp
  qed
  moreover have "batch_part (wld s') = batch_part w"
    using drain_loop_batch_part [OF s'(1)] st(5) by simp
  moreover have "heap_next (wld s') \<noteq> NULL" using s'(3) by (simp add: drain_inv_def)
  ultimately show ?thesis
    using s'(1,4) sz pos st(4) by (intro that [of s']) simp_all
qed

lemma unflushed_event_run:
  "acquire_event cfg (unflushed_event cfg) w =
     (case drain_loop cfg [full_poll cfg]
             (drain_start cfg (fst (fopen_wb live_filepath_tmp True w))
                (snd (fopen_wb live_filepath_tmp True w))) of
        Inl e \<Rightarrow> Inl e
      | Inr s \<Rightarrow>
          (case store_event cfg (unflushed_event cfg) s (publish_live True s) of
             Inl e \<Rightarrow> Inl e
           | Inr w' \<Rightarrow> Inr (exit_now s, w')))"
proof -
  have a: "\<not> driver_error (unflushed_event cfg)" "\<not> esc_while_armed (unflushed_event cfg)"
    "sel_work_ok (unflushed_event cfg)"
    by (simp_all add: unflushed_event_def)
  have b: "polls (unflushed_event cfg) = [full_poll cfg]"
    "live_fopen_ok (unflushed_event cfg) = True" "move_ok (unflushed_event cfg) = True"
    by (simp_all add: unflushed_event_def)
  show ?thesis unfolding acquire_event_run [OF a] b ..
qed

lemma unflushed_event_stored:
  assumes sel: "selection_ok cfg" and pos: "0 < sel_chunk_bytes cfg"
    and nn: "heap_next w \<noteq> NULL"
    and len: "length (g_data_buffer w) = MAX_EVENT_BATCH cfg"
    and room: "g_buffered_count w < MAX_EVENT_BATCH cfg"
  shows "\<exists>w'. acquire_event cfg (unflushed_event cfg) w = Inr (False, w')
           \<and> g_buffered_count w' = Suc (g_buffered_count w)
           \<and> length (g_data_buffer w') = MAX_EVENT_BATCH cfg \<and> heap_next w' \<noteq> NULL"
proof -
  let ?w0 = "snd (fopen_wb live_filepath_tmp True w)"
  have nn0: "heap_next ?w0 \<noteq> NULL" using nn by simp
  from full_poll_drained [OF sel pos nn0] obtain s' where
    s': "drain_loop cfg [full_poll cfg]
           (drain_start cfg (fst (fopen_wb live_filepath_tmp True w)) ?w0) = Inr s'"
    "current_acq_buffer s' \<noteq> NULL" "current_acq_size s' > 0" "\<not> exit_now s'"
    "batch_part (wld s') = batch_part ?w0" "heap_next (wld s') \<noteq> NULL"
    by blast
  let ?w1 = "publish_live True s'"
  have bp: "g_buffered_count ?w1 = g_buffered_count w" "g_data_buffer ?w1 = g_data_buffer w"
    using s'(5) by (simp_all add: batch_part_def)
  have lt: "g_buffered_count ?w1 < length (g_data_buffer ?w1)"
    using bp len room by simp
  have nf: "\<not> log_fopen_ok (unflushed_event cfg)" by (simp add: unflushed_event_def)
  let ?w2 = "?w1\<lparr>g_data_buffer := (g_data_buffer ?w1)[g_buffered_count ?w1 :=
                   \<lparr>data = current_acq_buffer s', size' = current_acq_size s'\<rparr>],
               g_buffered_count := Suc (g_buffered_count ?w1)\<rparr>"
  have "\<exists>w'. store_event cfg (unflushed_event cfg) s' ?w1 = Inr w'
          \<and> g_buffered_count w' = Suc (g_buffered_count w)
          \<and> length (g_data_buffer w') = MAX_EVENT_BATCH cfg \<and> heap_next w' \<noteq> NULL"
  proof (cases "Suc (g_buffered_count ?w1) < MAX_EVENT_BATCH cfg")
    case True
    from store_event_room [OF s'(2,3) lt True, of "unflushed_event cfg"]
    show ?thesis using bp len s'(6) by simp
  next
    case False
    then have "MAX_EVENT_BATCH cfg \<le> Suc (g_buffered_count ?w1)" by simp
    from store_event_not_opened [OF s'(2,3) lt this nf]
    show ?thesis using bp len s'(6) by simp
  qed
  then show ?thesis
    unfolding unflushed_event_run s'(1) using s'(4) by auto
qed

lemma unflushed_event_overflow:
  assumes sel: "selection_ok cfg" and pos: "0 < sel_chunk_bytes cfg"
    and nn: "heap_next w \<noteq> NULL"
    and full: "\<not> g_buffered_count w < length (g_data_buffer w)"
  shows "acquire_event cfg (unflushed_event cfg) w = Inl OutOfBounds"
proof -
  let ?w0 = "snd (fopen_wb live_filepath_tmp True w)"
  have nn0: "heap_next ?w0 \<noteq> NULL" using nn by simp
  from full_poll_drained [OF sel pos nn0] obtain s' where
    s': "drain_loop cfg [full_poll cfg]
           (drain_start cfg (fst (fopen_wb live_filepath_tmp True w)) ?w0) = Inr s'"
    "current_acq_buffer s' \<noteq> NULL" "current_acq_size s' > 0" "\<not> exit_now s'"
    "batch_part (wld s') = batch_part ?w0" "heap_next (wld s') \<noteq> NULL"
    by blast
  let ?w1 = "publish_live True s'"
  have bp: "g_buffered_count ?w1 = g_buffered_count w" "g_data_buffer ?w1 = g_data_buffer w"
    using s'(5) by (simp_all add: batch_part_def)
  have "\<not> g_buffered_count ?w1 < length (g_data_buffer ?w1)" using bp full by simp
  from store_event_overflow [OF s'(2,3) this]
  show ?thesis unfolding unflushed_event_run s'(1) by simp
qed

lemma unflushed_events_fill:
  assumes sel: "selection_ok cfg" and pos: "0 < sel_chunk_bytes cfg"
  shows "heap_next w \<noteq> NULL \<Longrightarrow> length (g_data_buffer w) = MAX_EVENT_BATCH cfg \<Longrightarrow>
         g_buffered_count w + k \<le> MAX_EVENT_BATCH cfg \<Longrightarrow>
         \<exists>w'. event_loop cfg (replicate k (unflushed_event cfg)) w = Inr (False, w')
           \<and> g_buffered_count w' = g_buffered_count w + k
           \<and> length (g_data_buffer w') = MAX_EVENT_BATCH cfg \<and> heap_next w' \<noteq> NULL"
proof (induction k arbitrary: w)
  case 0
  then show ?case by simp
next
  case (Suc k)
  have room: "g_buffered_count w < MAX_EVENT_BATCH cfg" using Suc.prems(3) by simp
  from unflushed_event_stored [OF sel pos Suc.prems(1,2) room] obtain w1 where
    w1: "acquire_event cfg (unflushed_event cfg) w = Inr (False, w1)"
    "g_buffered_count w1 = Suc (g_buffered_count w)"
    "length (g_data_buffer w1) = MAX_EVENT_BATCH cfg" "heap_next w1 \<noteq> NULL"
    by blast
  have "g_buffered_count w1 + k \<le> MAX_EVENT_BATCH cfg" using w1(2) Suc.prems(3) by simp
  from Suc.IH [OF w1(4,3) this] w1(1,2) show ?case by simp
qed

lemma event_loop_append:
  "event_loop cfg evs w = Inr (False, w') \<Longrightarrow>
   event_loop cfg (evs @ evs') w = event_loop cfg evs' w'"
proof (induction evs arbitrary: w)
  case Nil
  then show ?case by simp
next
  case (Cons ev evs)
  then show ?case by (auto split: sum.splits if_splits)
qed

lemma cadgetdata_config_ok:
  "selection_ok cadgetdata_config" "0 < sel_chunk_bytes cadgetdata_config"
  "MAX_EVENT_BATCH cadgetdata_config = 1000"
  by (simp_all add: cadgetdata_config_def selection_ok_def sel_chunk_bytes_def
      sel_chunk_samps_def SELECTED_COUNT_def)

lemma initial_world_simps [simp]:
  "heap_next (initial_world cfg fs) = 1"
  "g_buffered_count (initial_world cfg fs) = 0"
  "length (g_data_buffer (initial_world cfg fs)) = MAX_EVENT_BATCH cfg"
  by (simp_all add: initial_world_def)

lemma unflushed_events_full:
  assumes sel: "selection_ok cfg" and pos: "0 < sel_chunk_bytes cfg"
  obtains w where
    "event_loop cfg (replicate (MAX_EVENT_BATCH cfg) (unflushed_event cfg)) (initial_world cfg fs)
       = Inr (False, w)"
    "g_buffered_count w = MAX_EVENT_BATCH cfg" "length (g_data_buffer w) = MAX_EVENT_BATCH cfg"
    "heap_next w \<noteq> NULL"
  using unflushed_events_fill [OF sel pos, of "initial_world cfg fs" "MAX_EVENT_BATCH cfg"]
  by (auto simp: NULL_def)

text \<open>
  C3. The batch does not stay within its capacity when a flush fails. With the constants
  of the program, 1000 completed events whose flush cannot open the log file leave the
  batch full (count 1000, nothing flushed) and the main loop running; the next trigger
  cycle then stores its event although no slot is left: the store leaves the array.
\<close>

theorem batch_full_after_failed_flush:
  "\<exists>w. event_loop cadgetdata_config (replicate 1000 (unflushed_event cadgetdata_config))
          (initial_world cadgetdata_config fs) = Inr (False, w)
       \<and> g_buffered_count w = MAX_EVENT_BATCH cadgetdata_config
       \<and> length (g_data_buffer w) = MAX_EVENT_BATCH cadgetdata_config
       \<and> acquire_event cadgetdata_config (unflushed_event cadgetdata_config) w = Inl OutOfBounds"
proof -
  from unflushed_events_full [OF cadgetdata_config_ok(1,2), of fs] obtain w where
    w: "event_loop cadgetdata_config
          (replicate (MAX_EVENT_BATCH cadgetdata_config) (unflushed_event cadgetdata_config))
          (initial_world cadgetdata_config fs) = Inr (False, w)"
    "g_buffered_count w = MAX_EVENT_BATCH cadgetdata_config"
    "length (g_data_buffer w) = MAX_EVENT_BATCH cadgetdata_config" "heap_next w \<noteq> NULL"
    by blast
  have "\<not> g_buffered_count w < length (g_data_buffer w)" using w(2,3) by simp
  from unflushed_event_overflow [OF cadgetdata_config_ok(1,2) w(4) this] w
  show ?thesis by (auto simp: cadgetdata_config_ok(3))
qed

text \<open>
  C10. The store \<open>g_data_buffer[g_buffered_count]\<close> is not always inside the array. In
  the run of 1001 completed events in which the flush at full capacity cannot open its
  file, the last store has index 1000 in an array of 1000 elements.
\<close>

theorem append_index_out_of_bounds:
  "event_loop cadgetdata_config (replicate 1001 (unflushed_event cadgetdata_config))
     (initial_world cadgetdata_config fs) = Inl OutOfBounds"
proof -
  from unflushed_events_full [OF cadgetdata_config_ok(1,2), of fs] obtain w where
    w: "event_loop cadgetdata_config
          (replicate (MAX_EVENT_BATCH cadgetdata_config) (unflushed_event cadgetdata_config))
          (initial_world cadgetdata_config fs) = Inr (False, w)"
    "g_buffered_count w = MAX_EVENT_BATCH cadgetdata_config"
    "length (g_data_buffer w) = MAX_EVENT_BATCH cadgetdata_config" "heap_next w \<noteq> NULL"
    by blast
  have full: "\<not> g_buffered_count w < length (g_data_buffer w)" using w(2,3) by simp
  have "replicate 1001 (unflushed_event cadgetdata_config)
        = replicate 1000 (unflushed_event cadgetdata_config) @ [unflushed_event cadgetdata_config]"
    using replicate_add [of 1000 1 "unflushed_event cadgetdata_config"] by simp
  then have "event_loop cadgetdata_config (replicate 1001 (unflushed_event cadgetdata_config))
               (initial_world cadgetdata_config fs)
             = event_loop cadgetdata_config [unflushed_event cadgetdata_config] w"
    using event_loop_append [OF w(1) [unfolded cadgetdata_config_ok(3)]] by simp
  then show ?thesis
    using unflushed_event_overflow [OF cadgetdata_config_ok(1,2) w(4) full] by simp
qed


section \<open>An event whose buffer cannot grow\<close>

lemma drain_loop_stopped: "g_fStop s \<Longrightarrow> drain_loop cfg ps s = Inr s"
  by (cases ps) simp_all

lemma release_fresh:
  "q \<noteq> NULL \<Longrightarrow> h q = None \<Longrightarrow> release q (h(q \<mapsto> x)) = h"
  by (auto simp: release_def)

lemma drain_iteration_heap:
  assumes sel: "selection_ok cfg" and pk: "poll_ok cfg p"
    and inv: "drain_inv cfg s" and eh: "event_heap h0 s"
    and it: "drain_iteration cfg p s = Inr s1"
  shows "event_heap h0 s1"
proof -
  from inv obtain acc where acc: "acq_bytes s = Some acc"
    by (auto simp: drain_inv_def split: option.splits)
  have nn: "heap_next (wld s) \<noteq> NULL" using inv by (simp add: drain_inv_def)
  have h0: "release (current_acq_buffer s) (heap (wld s)) = h0"
    and fr: "\<forall>p\<ge>heap_next (wld s). h0 p = None"
    using eh by (simp_all add: event_heap_def)
  show ?thesis
  proof (cases "halfReady p")
    case False
    from it show ?thesis
      unfolding drain_iteration_idle [OF False] using eh by (auto simp: event_heap_def)
  next
    case True
    show ?thesis
    proof (cases "realloc_ok p")
      case False
      from it show ?thesis
        unfolding drain_iteration_fail [OF sel pk True False inv]
        using h0 fr by (auto simp: event_heap_def release_def)
    next
      case ok: True
      have q: "h0 (heap_next (wld s)) = None" using fr by simp
      from it show ?thesis
        unfolding drain_iteration_grow [OF sel pk True ok inv acc]
        using fr nn release_fresh [of "heap_next (wld s)" h0, OF nn q]
        by (auto simp: event_heap_def h0)
    qed
  qed
qed

lemma drain_loop_prefix:
  assumes sel: "selection_ok cfg"
  shows "\<forall>p\<in>set pre. calm_poll cfg p \<and> \<not> fStop p \<Longrightarrow> drain_inv cfg s \<Longrightarrow>
         \<not> g_fStop s \<Longrightarrow> event_heap h0 s \<Longrightarrow>
         \<exists>s1. drain_loop cfg (pre @ rest) s = drain_loop cfg rest s1
           \<and> drain_inv cfg s1 \<and> \<not> g_fStop s1 \<and> exit_now s1 = exit_now s
           \<and> f_out_live s1 = f_out_live s \<and> event_heap h0 s1
           \<and> batch_part (wld s1) = batch_part (wld s)"
proof (induction pre arbitrary: s)
  case Nil
  then show ?case by auto
next
  case (Cons p pre)
  have calm: "calm_poll cfg p" and go: "\<not> fStop p" using Cons.prems(1) by simp_all
  from Cons.prems(2) obtain acc where acc: "acq_bytes s = Some acc"
    by (auto simp: drain_inv_def split: option.splits)
  from calm_step [OF sel calm Cons.prems(2) acc] obtain s1 where
    s1: "drain_iteration cfg p s = Inr s1" "drain_inv cfg s1"
    "g_fStop s1 = fStop p" "exit_now s1 = exit_now s" "f_out_live s1 = f_out_live s"
    by blast
  have pk: "poll_ok cfg p" using calm by (simp add: calm_poll_def)
  have eh1: "event_heap h0 s1"
    by (rule drain_iteration_heap [OF sel pk Cons.prems(2) Cons.prems(4) s1(1)])
  have bp1: "batch_part (wld s1) = batch_part (wld s)"
    by (rule drain_iteration_batch_part [OF s1(1)])
  have unf: "drain_loop cfg ((p # pre) @ rest) s = drain_loop cfg (pre @ rest) s1"
    using Cons.prems(3) s1(1) by simp
  have "\<exists>s2. drain_loop cfg (pre @ rest) s1 = drain_loop cfg rest s2
           \<and> drain_inv cfg s2 \<and> \<not> g_fStop s2 \<and> exit_now s2 = exit_now s1
           \<and> f_out_live s2 = f_out_live s1 \<and> event_heap h0 s2
           \<and> batch_part (wld s2) = batch_part (wld s1)"
    using Cons.prems(1) s1 go eh1 by (intro Cons.IH) simp_all
  then show ?case unfolding unf using s1(4,5) bp1 by auto
qed

lemma drain_loop_alloc_failure:
  assumes sel: "selection_ok cfg"
    and pre: "\<forall>p\<in>set pre. calm_poll cfg p \<and> \<not> fStop p"
    and pf: "poll_ok cfg pf" "halfReady pf" "\<not> realloc_ok pf"
    and inv: "drain_inv cfg s" and run: "\<not> g_fStop s" and eh: "event_heap h0 s"
  shows "\<exists>s'. drain_loop cfg (pre @ pf # rest) s = Inr s'
           \<and> current_acq_buffer s' = NULL \<and> current_acq_size s' = 0
           \<and> exit_now s' = (exit_now s \<or> esc pf) \<and> f_out_live s' = f_out_live s
           \<and> heap (wld s') = h0 \<and> batch_part (wld s') = batch_part (wld s)"
proof -
  from drain_loop_prefix [OF sel pre inv run eh, of "pf # rest"] obtain s1 where
    s1: "drain_loop cfg (pre @ pf # rest) s = drain_loop cfg (pf # rest) s1"
    "drain_inv cfg s1" "\<not> g_fStop s1" "exit_now s1 = exit_now s"
    "f_out_live s1 = f_out_live s" "event_heap h0 s1"
    "batch_part (wld s1) = batch_part (wld s)"
    by blast
  let ?s2 = "s1\<lparr>sel_work := selected_samples cfg (due_buffer (current_buffer_idx s1) pf),
            current_acq_buffer := NULL, current_acq_size := 0,
            wld := (wld s1)\<lparr>heap := release (current_acq_buffer s1) (heap (wld s1))\<rparr>,
            current_buffer_idx := 1 - current_buffer_idx s1,
            g_fStop := True, exit_now := exit_now s1 \<or> esc pf\<rparr>"
  have it: "drain_iteration cfg pf s1 = Inr ?s2"
    by (rule drain_iteration_fail [OF sel pf s1(2)])
  have "drain_loop cfg (pf # rest) s1 = drain_loop cfg rest ?s2"
    using s1(3) it by simp
  also have "\<dots> = Inr ?s2" by (rule drain_loop_stopped) simp
  finally have dl: "drain_loop cfg (pre @ pf # rest) s = Inr ?s2" using s1(1) by simp
  have "heap (wld ?s2) = h0" using s1(6) by (simp add: event_heap_def)
  moreover have "batch_part (wld ?s2) = batch_part (wld s)"
    using s1(7) by (simp add: batch_part_def)
  ultimately show ?thesis using dl s1(4,5) by simp
qed

lemma store_event_empty:
  "current_acq_buffer s = NULL \<Longrightarrow> store_event cfg ev s w = Inr w"
  by (simp add: store_event_def)

lemma event_heap_start:
  "\<forall>p\<ge>heap_next w. heap w p = None \<Longrightarrow> event_heap (heap w) (drain_start cfg f w)"
  by (simp add: event_heap_def drain_start_def release_def)

text \<open>
  C6. When growing the event buffer fails on some chunk, the trigger cycle returns
  normally: everything the event had collected is released (the heap is what it was
  before the cycle), the batch array and its count are untouched, and the exit flag is set
  only if ESC was pressed in that same pass; without ESC the main loop goes on with the
  next trigger cycle.
\<close>

theorem alloc_failure_discards_event:
  "selection_ok cfg \<and> \<not> driver_error ev \<and> \<not> esc_while_armed ev \<and> sel_work_ok ev
   \<and> polls ev = pre @ pf # rest \<and> (\<forall>p\<in>set pre. calm_poll cfg p \<and> \<not> fStop p)
   \<and> poll_ok cfg pf \<and> halfReady pf \<and> \<not> realloc_ok pf
   \<and> heap_next w \<noteq> NULL \<and> (\<forall>p\<ge>heap_next w. heap w p = None) \<longrightarrow>
   (\<exists>w'. acquire_event cfg ev w = Inr (esc pf, w')
      \<and> g_buffered_count w' = g_buffered_count w \<and> g_data_buffer w' = g_data_buffer w
      \<and> heap w' = heap w
      \<and> (\<not> esc pf \<longrightarrow> event_loop cfg (ev # evs) w = event_loop cfg evs w'))"
proof
  assume h: "selection_ok cfg \<and> \<not> driver_error ev \<and> \<not> esc_while_armed ev \<and> sel_work_ok ev
   \<and> polls ev = pre @ pf # rest \<and> (\<forall>p\<in>set pre. calm_poll cfg p \<and> \<not> fStop p)
   \<and> poll_ok cfg pf \<and> halfReady pf \<and> \<not> realloc_ok pf
   \<and> heap_next w \<noteq> NULL \<and> (\<forall>p\<ge>heap_next w. heap w p = None)"
  let ?f = "fst (fopen_wb live_filepath_tmp (live_fopen_ok ev) w)"
  let ?w0 = "snd (fopen_wb live_filepath_tmp (live_fopen_ok ev) w)"
  let ?s = "drain_start cfg ?f ?w0"
  from h have sel: "selection_ok cfg" and pre: "\<forall>p\<in>set pre. calm_poll cfg p \<and> \<not> fStop p"
    and pf: "poll_ok cfg pf" "halfReady pf" "\<not> realloc_ok pf"
    and ev: "\<not> driver_error ev" "\<not> esc_while_armed ev" "sel_work_ok ev"
    and ps: "polls ev = pre @ pf # rest"
    by simp_all
  have inv: "drain_inv cfg ?s" using h by (intro drain_inv_start) simp
  have eh: "event_heap (heap ?w0) ?s" using h by (intro event_heap_start) simp
  have st: "\<not> g_fStop ?s" "\<not> exit_now ?s" "wld ?s = ?w0" by (simp_all add: drain_start_def)
  from drain_loop_alloc_failure [OF sel pre pf inv st(1) eh, of rest] obtain s' where
    s': "drain_loop cfg (pre @ pf # rest) ?s = Inr s'"
    "current_acq_buffer s' = NULL" "exit_now s' = (exit_now ?s \<or> esc pf)"
    "heap (wld s') = heap ?w0" "batch_part (wld s') = batch_part (wld ?s)"
    by blast
  let ?w' = "publish_live (move_ok ev) s'"
  have ae: "acquire_event cfg ev w = Inr (esc pf, ?w')"
    unfolding acquire_event_run [OF ev] ps s'(1)
    using s'(3) st(2) by (simp add: store_event_empty [OF s'(2)])
  have bp: "g_buffered_count ?w' = g_buffered_count w" "g_data_buffer ?w' = g_data_buffer w"
    using s'(5) unfolding st(3) by (simp_all add: batch_part_def)
  have hp: "heap ?w' = heap w" using s'(4) by simp
  have "\<not> esc pf \<longrightarrow> event_loop cfg (ev # evs) w = event_loop cfg evs ?w'"
    using ae by simp
  with ae bp hp show "\<exists>w'. acquire_event cfg ev w = Inr (esc pf, w')
      \<and> g_buffered_count w' = g_buffered_count w \<and> g_data_buffer w' = g_data_buffer w
      \<and> heap w' = heap w
      \<and> (\<not> esc pf \<longrightarrow> event_loop cfg (ev # evs) w = event_loop cfg evs w')"
    by blast
qed

theorem alloc_failure_on_second_chunk:
  "selection_ok scenario_config \<and> \<not> driver_error failing_event
   \<and> \<not> esc_while_armed failing_event \<and> sel_work_ok failing_event
   \<and> polls failing_event = [poll_first] @ poll_fail # []
   \<and> calm_poll scenario_config poll_first \<and> \<not> fStop poll_first
   \<and> poll_ok scenario_config poll_fail \<and> halfReady poll_fail \<and> \<not> realloc_ok poll_fail
   \<and> heap_next (initial_world scenario_config no_files) \<noteq> NULL
   \<and> heap (initial_world scenario_config no_files) = Map.empty
   \<and> (\<exists>w'. acquire_event scenario_config failing_event (initial_world scenario_config no_files)
               = Inr (False, w')
      \<and> g_buffered_count w' = 0 \<and> heap w' = Map.empty
      \<and> event_loop scenario_config [failing_event] (initial_world scenario_config no_files)
          = Inr (False, w'))"
proof -
  let ?w = "initial_world scenario_config no_files"
  have hyps: "selection_ok scenario_config \<and> \<not> driver_error failing_event
   \<and> \<not> esc_while_armed failing_event \<and> sel_work_ok failing_event
   \<and> polls failing_event = [poll_first] @ poll_fail # []
   \<and> (\<forall>p\<in>set [poll_first]. calm_poll scenario_config p \<and> \<not> fStop p)
   \<and> poll_ok scenario_config poll_fail \<and> halfReady poll_fail \<and> \<not> realloc_ok poll_fail
   \<and> heap_next ?w \<noteq> NULL \<and> (\<forall>p\<ge>heap_next ?w. heap ?w p = None)"
    by (simp add: scenario_config_def selection_ok_def failing_event_def calm_poll_def
        poll_ok_def poll_first_def poll_fail_def scenario_half_def scenario_half2_def
        initial_world_def NULL_def)
  from alloc_failure_discards_event
         [of scenario_config failing_event "[poll_first]" poll_fail "[]" ?w "[]"] hyps
  obtain w' where w': "acquire_event scenario_config failing_event ?w = Inr (esc poll_fail, w')"
    "g_buffered_count w' = g_buffered_count ?w" "heap w' = heap ?w"
    "\<not> esc poll_fail \<longrightarrow>
       event_loop scenario_config (failing_event # []) ?w = event_loop scenario_config [] w'"
    by blast
  have e: "\<not> esc poll_fail" by (simp add: poll_fail_def)
  have "acquire_event scenario_config failing_event ?w = Inr (False, w')
      \<and> g_buffered_count w' = 0 \<and> heap w' = Map.empty
      \<and> event_loop scenario_config [failing_event] ?w = Inr (False, w')"
    using w' e by (simp add: initial_world_def)
  moreover have "heap ?w = Map.empty" by (simp add: initial_world_def)
  ultimately show ?thesis using hyps by auto
qed


section \<open>The live file does not influence acquisition and batching (src/cadgetdata.c)\<close>

lemma without_files_simps [simp]:
  "heap (without_files w) = heap w"
  "heap_next (without_files w) = heap_next w"
  "g_data_buffer (without_files w) = g_data_buffer w"
  "g_buffered_count (without_files w) = g_buffered_count w"
  "console (without_files w) = console w"
  "files (without_files w) = Map.empty"
  "io_log (without_files w) = []"
  by (simp_all add: without_files_def)

lemma without_files_idem [simp]: "without_files (without_files w) = without_files w"
  by (simp add: without_files_def)

lemma without_files_do_io [simp]: "without_files (do_io op w) = without_files w"
  by (simp add: without_files_def do_io_def)

lemma without_files_printf: "without_files (printf m w) = printf m (without_files w)"
  by (simp add: without_files_def printf_def)

lemma without_files_fwrite [simp]: "without_files (fwrite bs f w) = without_files w"
  by (simp add: fwrite_def)

lemma without_files_fclose [simp]: "without_files (fclose f w) = without_files w"
  by (simp add: fclose_def)

lemma without_files_MoveFileExA [simp]: "without_files (MoveFileExA a b ok w) = without_files w"
  by (simp add: MoveFileExA_def)

lemma without_files_fopen_wb [simp]: "without_files (snd (fopen_wb p ok w)) = without_files w"
  by (simp add: fopen_wb_def)

lemma without_files_heap_update:
  "without_files (w\<lparr>heap := h\<rparr>) = (without_files w)\<lparr>heap := h\<rparr>"
  by (simp add: without_files_def)

lemma realloc_without_files:
  "map_sum id (map_prod id without_files) (realloc p n ok w) = realloc p n ok (without_files w)"
  by (simp add: realloc_def Let_def without_files_def)

lemma free_without_files:
  "map_sum id without_files (free p w) = free p (without_files w)"
  by (simp add: free_def without_files_def)

lemma memcpy_without_files:
  "map_sum id without_files (memcpy p off src n w) = memcpy p off src n (without_files w)"
  by (simp add: memcpy_def without_files_def split: option.splits)

lemma without_live_simps [simp]:
  "current_acq_buffer (without_live s) = current_acq_buffer s"
  "current_acq_size (without_live s) = current_acq_size s"
  "current_buffer_idx (without_live s) = current_buffer_idx s"
  "g_fStop (without_live s) = g_fStop s"
  "exit_now (without_live s) = exit_now s"
  "sel_work (without_live s) = sel_work s"
  "f_out_live (without_live s) = None"
  "wld (without_live s) = without_files (wld s)"
  by (simp_all add: without_live_def)

lemma alloc_failed_without_live:
  "map_sum id without_live (alloc_failed s w) = alloc_failed (without_live s) (without_files w)"
  by (simp add: alloc_failed_def free_def without_live_def without_files_def)

lemma append_chunk_without_live:
  "map_sum id without_live (append_chunk cfg q s w)
   = append_chunk cfg q (without_live s) (without_files w)"
  by (simp add: append_chunk_def memcpy_def without_live_def without_files_def fwrite_def do_io_def
      split: option.splits)

lemma half_ready_without_live:
  "map_sum id without_live (half_ready cfg p s) = half_ready cfg p (without_live s)"
proof (cases "extract_selected_channels cfg
                (if current_buffer_idx s = 0 then ai_buf p else ai_buf2 p) (sel_work s)")
  case (Inl e)
  then show ?thesis by (simp add: half_ready_def)
next
  case (Inr work)
  let ?n = "current_acq_size s + sel_chunk_bytes cfg"
  show ?thesis
  proof (cases "realloc (current_acq_buffer s) ?n (realloc_ok p) (wld s)")
    case (Inl e)
    with realloc_without_files [of "current_acq_buffer s" ?n "realloc_ok p" "wld s"]
    have "realloc (current_acq_buffer s) ?n (realloc_ok p) (without_files (wld s)) = Inl e"
      by simp
    with Inl Inr show ?thesis by (simp add: half_ready_def)
  next
    case r: (Inr qw)
    obtain q w where qw: "qw = (q, w)" by (cases qw)
    with r realloc_without_files [of "current_acq_buffer s" ?n "realloc_ok p" "wld s"]
    have r': "realloc (current_acq_buffer s) ?n (realloc_ok p) (without_files (wld s))
              = Inr (q, without_files w)"
      by simp
    have sw: "without_live (s\<lparr>sel_work := work\<rparr>) = (without_live s)\<lparr>sel_work := work\<rparr>"
      by (simp add: without_live_def)
    have idx: "\<And>t. without_live (t\<lparr>current_buffer_idx := 1 - current_buffer_idx t\<rparr>)
               = (without_live t)\<lparr>current_buffer_idx := 1 - current_buffer_idx (without_live t)\<rparr>"
      by (simp add: without_live_def)
    show ?thesis
    proof (cases "q = NULL")
      case True
      let ?X = "alloc_failed (s\<lparr>sel_work := work\<rparr>) w"
      have af: "alloc_failed ((without_live s)\<lparr>sel_work := work\<rparr>) (without_files w)
                = map_sum id without_live ?X"
        by (simp only: sw [symmetric] alloc_failed_without_live)
      have L: "half_ready cfg p s =
                 (case ?X of Inl e \<Rightarrow> Inl e
                  | Inr s' \<Rightarrow> Inr (s'\<lparr>current_buffer_idx := 1 - current_buffer_idx s'\<rparr>))"
        by (simp add: half_ready_def Inr r qw True)
      have R: "half_ready cfg p (without_live s) =
                 (case alloc_failed ((without_live s)\<lparr>sel_work := work\<rparr>) (without_files w) of
                    Inl e \<Rightarrow> Inl e
                  | Inr s' \<Rightarrow> Inr (s'\<lparr>current_buffer_idx := 1 - current_buffer_idx s'\<rparr>))"
        by (simp add: half_ready_def Inr r' True)
      show ?thesis unfolding L R af by (cases ?X) (simp_all add: idx)
    next
      case False
      let ?X = "append_chunk cfg q (s\<lparr>sel_work := work\<rparr>) w"
      have af: "append_chunk cfg q ((without_live s)\<lparr>sel_work := work\<rparr>) (without_files w)
                = map_sum id without_live ?X"
        by (simp only: sw [symmetric] append_chunk_without_live)
      have L: "half_ready cfg p s =
                 (case ?X of Inl e \<Rightarrow> Inl e
                  | Inr s' \<Rightarrow> Inr (s'\<lparr>current_buffer_idx := 1 - current_buffer_idx s'\<rparr>))"
        by (simp add: half_ready_def Inr r qw False)
      have R: "half_ready cfg p (without_live s) =
                 (case append_chunk cfg q ((without_live s)\<lparr>sel_work := work\<rparr>)
                         (without_files w) of
                    Inl e \<Rightarrow> Inl e
                  | Inr s' \<Rightarrow> Inr (s'\<lparr>current_buffer_idx := 1 - current_buffer_idx s'\<rparr>))"
        by (simp add: half_ready_def Inr r' False)
      show ?thesis unfolding L R af by (cases ?X) (simp_all add: idx)
    qed
  qed
qed

lemma drain_iteration_without_live:
  "map_sum id without_live (drain_iteration cfg p s) = drain_iteration cfg p (without_live s)"
proof -
  have g: "without_live (s\<lparr>g_fStop := fStop p\<rparr>) = (without_live s)\<lparr>g_fStop := fStop p\<rparr>"
    by (simp add: without_live_def)
  have e: "\<And>t. without_live (t\<lparr>g_fStop := True, exit_now := True\<rparr>)
             = (without_live t)\<lparr>g_fStop := True, exit_now := True\<rparr>"
    by (simp add: without_live_def)
  show ?thesis
  proof (cases "halfReady p")
    case False
    then show ?thesis by (simp add: drain_iteration_def g e)
  next
    case True
    let ?X = "half_ready cfg p (s\<lparr>g_fStop := fStop p\<rparr>)"
    have hr: "half_ready cfg p ((without_live s)\<lparr>g_fStop := fStop p\<rparr>)
              = map_sum id without_live ?X"
      by (simp only: g [symmetric] half_ready_without_live)
    show ?thesis
      unfolding drain_iteration_def hr using True by (cases ?X) (simp_all add: e)
  qed
qed

lemma drain_loop_without_live:
  "map_sum id without_live (drain_loop cfg ps s) = drain_loop cfg ps (without_live s)"
proof (induction ps arbitrary: s)
  case Nil
  then show ?case by simp
next
  case (Cons p ps)
  let ?X = "drain_iteration cfg p s"
  have it: "drain_iteration cfg p (without_live s) = map_sum id without_live ?X"
    by (simp only: drain_iteration_without_live)
  show ?case
  proof (cases "g_fStop s")
    case True
    then show ?thesis by simp
  next
    case False
    show ?thesis
    proof (cases ?X)
      case (Inl e)
      with False it show ?thesis by simp
    next
      case (Inr s1)
      with False it Cons.IH [of s1] show ?thesis by simp
    qed
  qed
qed


lemma write_event_without_files:
  "map_sum id without_files (write_event f i w)
   = map_sum id without_files (write_event f i (without_files w))"
  by (simp add: write_event_def fwrite_block_def free_def fwrite_def do_io_def without_files_def
      split: option.splits)

lemma write_event_core:
  assumes "without_files w = without_files w'"
  shows "map_sum id without_files (write_event f i w)
         = map_sum id without_files (write_event f i w')"
  using write_event_without_files [of f i w] write_event_without_files [of f i w'] assms
  by simp

lemma write_events_core:
  "without_files w = without_files w' \<Longrightarrow>
   map_sum id without_files (write_events f n i w)
   = map_sum id without_files (write_events f n i w')"
proof (induction "n - i" arbitrary: i w w')
  case 0
  then show ?case by (simp add: write_events.simps [of f n i])
next
  case (Suc d)
  then have lt: "i < n" by simp
  note we = write_event_core [OF Suc.prems, of f i]
  show ?case
  proof (cases "write_event f i w")
    case (Inl e)
    with we have "write_event f i w' = Inl e" by (cases "write_event f i w'") simp_all
    with Inl lt show ?thesis by (simp add: write_events.simps [of f n i])
  next
    case (Inr w1)
    with we obtain w1' where w1': "write_event f i w' = Inr w1'"
      "without_files w1 = without_files w1'"
      by (cases "write_event f i w'") simp_all
    have "map_sum id without_files (write_events f n (Suc i) w1)
          = map_sum id without_files (write_events f n (Suc i) w1')"
      using Suc.hyps(2) lt by (intro Suc.hyps(1) w1'(2)) simp
    with Inr w1' lt show ?thesis by (simp add: write_events.simps [of f n i])
  qed
qed

lemma save_batch_to_file_without_files:
  "map_sum id without_files (save_batch_to_file t ok w)
   = map_sum id without_files (save_batch_to_file t ok (without_files w))"
proof (cases "g_buffered_count w = 0 \<or> \<not> ok")
  case True
  then show ?thesis
    by (auto simp: save_batch_to_file_def fopen_wb_def without_files_printf)
next
  case False
  let ?f = "log_filepath t (g_buffered_count w)"
  let ?h = "batch_header t (g_buffered_count w)"
  let ?X = "write_events ?f (g_buffered_count w) 0 (fwrite ?h ?f (do_io (Fopen ?f) w))"
  let ?Y = "write_events ?f (g_buffered_count w) 0
              (fwrite ?h ?f (do_io (Fopen ?f) (without_files w)))"
  have xy: "map_sum id without_files ?X = map_sum id without_files ?Y"
    by (rule write_events_core) simp
  have fin: "\<And>m v. without_files ((printf m (fclose ?f v))\<lparr>g_buffered_count := 0\<rparr>)
              = (printf m (without_files v))\<lparr>g_buffered_count := 0\<rparr>"
    by (simp add: without_files_def printf_def fclose_def do_io_def)
  have cnt: "\<And>v v'. without_files v = without_files v' \<Longrightarrow>
               g_buffered_count v = g_buffered_count v'"
    by (metis without_files_simps(4))
  show ?thesis
  proof (cases ?X)
    case (Inl e)
    with xy have "?Y = Inl e" by (cases ?Y) simp_all
    with Inl False show ?thesis by (simp add: save_batch_to_file_def fopen_wb_def)
  next
    case (Inr v)
    with xy obtain v' where v': "?Y = Inr v'" "without_files v = without_files v'"
      by (cases ?Y) simp_all
    with Inr False cnt [OF v'(2)] show ?thesis
      by (simp add: save_batch_to_file_def fopen_wb_def fin)
  qed
qed

lemma batch_append_without_files:
  "map_sum id without_files (batch_append p n w) = batch_append p n (without_files w)"
  by (simp add: batch_append_def without_files_def)

lemma store_event_without_files:
  "map_sum id without_files (store_event cfg ev s w)
   = map_sum id without_files (store_event cfg ev s (without_files w))"
proof (cases "current_acq_buffer s \<noteq> NULL \<and> current_acq_size s > 0")
  case False
  then show ?thesis by (auto simp: store_event_def)
next
  case True
  let ?X = "batch_append (current_acq_buffer s) (current_acq_size s) w"
  have ba: "batch_append (current_acq_buffer s) (current_acq_size s) (without_files w)
            = map_sum id without_files ?X"
    by (simp only: batch_append_without_files)
  show ?thesis
  proof (cases ?X)
    case (Inl e)
    with True ba show ?thesis by (simp add: store_event_def)
  next
    case (Inr w1)
    show ?thesis
    proof (cases "g_buffered_count w1 \<ge> MAX_EVENT_BATCH cfg")
      case False
      with True ba Inr show ?thesis by (simp add: store_event_def)
    next
      case full: True
      from save_batch_to_file_without_files [of "flush_time ev" "log_fopen_ok ev" w1]
      show ?thesis using True ba Inr full by (simp add: store_event_def)
    qed
  qed
qed

lemma store_event_locals:
  "current_acq_buffer s' = current_acq_buffer s \<Longrightarrow> current_acq_size s' = current_acq_size s \<Longrightarrow>
   store_event cfg ev s' w = store_event cfg ev s w"
  by (simp add: store_event_def)

lemma store_event_core:
  assumes "current_acq_buffer s' = current_acq_buffer s" "current_acq_size s' = current_acq_size s"
    and "without_files w' = without_files w"
  shows "map_sum id without_files (store_event cfg ev s' w')
         = map_sum id without_files (store_event cfg ev s w)"
  using store_event_without_files [of cfg ev s w] store_event_without_files [of cfg ev s w']
    store_event_locals [OF assms(1,2)] assms(3)
  by simp


section \<open>The file operations of a trigger cycle\<close>

lemma io_from_refl: "io_from w w []"
  by (simp add: io_from_def)

lemma replay_append: "replay (a @ b) fs = replay b (replay a fs)"
  by (induction a arbitrary: fs) simp_all

lemma io_from_trans: "io_from w w1 a \<Longrightarrow> io_from w1 w2 b \<Longrightarrow> io_from w w2 (a @ b)"
  by (simp add: io_from_def replay_append)

lemma io_from_do_io: "io_from w (do_io op w) [op]"
  by (simp add: io_from_def)

lemma io_from_same:
  "io_log w' = io_log w \<Longrightarrow> files w' = files w \<Longrightarrow> io_from w w' []"
  by (simp add: io_from_def)

lemma io_from_eq:
  "io_from w w1 ops \<Longrightarrow> io_log w2 = io_log w1 \<Longrightarrow> files w2 = files w1 \<Longrightarrow> io_from w w2 ops"
  by (simp add: io_from_def)

lemma realloc_io: "realloc p n ok w = Inr (q, w') \<Longrightarrow> io_log w' = io_log w \<and> files w' = files w"
  by (auto simp: realloc_def Let_def split: if_splits)

lemma free_io: "free p w = Inr w' \<Longrightarrow> io_log w' = io_log w \<and> files w' = files w"
  by (auto simp: free_def split: if_splits)

lemma memcpy_io: "memcpy p off src n w = Inr w' \<Longrightarrow> io_log w' = io_log w \<and> files w' = files w"
  by (auto simp: memcpy_def split: option.splits if_splits)

lemma alloc_failed_io:
  "alloc_failed s w = Inr s' \<Longrightarrow>
   f_out_live s' = f_out_live s \<and> io_from w (wld s') (live_writes (f_out_live s) [])"
  by (auto simp: alloc_failed_def live_writes_def split: sum.splits option.splits
      dest!: free_io intro: io_from_same)

lemma append_chunk_io:
  "append_chunk cfg q s w = Inr s' \<Longrightarrow>
   f_out_live s' = f_out_live s \<and> (\<exists>cs. io_from w (wld s') (live_writes (f_out_live s) cs))"
proof -
  assume a: "append_chunk cfg q s w = Inr s'"
  then obtain w1 where m: "memcpy q (current_acq_size s) (bytes_of_samples (sel_work s))
                             (sel_chunk_bytes cfg) w = Inr w1"
    and s': "s' = s\<lparr>current_acq_buffer := q,
                 current_acq_size := current_acq_size s + sel_chunk_bytes cfg,
                 wld := (case f_out_live s of
                           None \<Rightarrow> w1
                         | Some f \<Rightarrow>
                             fwrite (take (sel_chunk_bytes cfg) (bytes_of_samples (sel_work s))) f w1)\<rparr>"
    by (auto simp: append_chunk_def split: sum.splits)
  from memcpy_io [OF m] have w1: "io_from w w1 []" by (simp add: io_from_same)
  show ?thesis
  proof (cases "f_out_live s")
    case None
    with s' w1 have "io_from w (wld s') (live_writes (f_out_live s) [])"
      by (simp add: live_writes_def)
    with s' show ?thesis by auto
  next
    case (Some f)
    let ?c = "take (sel_chunk_bytes cfg) (bytes_of_samples (sel_work s))"
    have "io_from w1 (fwrite ?c f w1) [Fwrite f ?c]"
      unfolding fwrite_def by (rule io_from_do_io)
    from io_from_trans [OF w1 this] Some s'
    have "io_from w (wld s') (live_writes (f_out_live s) [?c])"
      by (simp add: live_writes_def)
    with s' show ?thesis by auto
  qed
qed

lemma half_ready_io:
  assumes "half_ready cfg p s = Inr s'"
  shows "f_out_live s' = f_out_live s
         \<and> (\<exists>cs. io_from (wld s) (wld s') (live_writes (f_out_live s) cs))"
proof -
  from assms obtain work q w s1 where
    r: "realloc (current_acq_buffer s) (current_acq_size s + sel_chunk_bytes cfg) (realloc_ok p) (wld s) = Inr (q, w)"
    and b: "(if q = NULL then alloc_failed (s\<lparr>sel_work := work\<rparr>) w
             else append_chunk cfg q (s\<lparr>sel_work := work\<rparr>) w) = Inr s1"
    and s': "s' = s1\<lparr>current_buffer_idx := 1 - current_buffer_idx s1\<rparr>"
    by (auto simp: half_ready_def Let_def split: sum.splits prod.splits)
  from realloc_io [OF r] have w: "io_from (wld s) w []" by (simp add: io_from_same)
  from b have "f_out_live s1 = f_out_live s
               \<and> (\<exists>cs. io_from w (wld s1) (live_writes (f_out_live s) cs))"
    by (cases "q = NULL") (auto dest!: alloc_failed_io append_chunk_io)
  then obtain cs where "f_out_live s1 = f_out_live s"
    "io_from w (wld s1) (live_writes (f_out_live s) cs)" by blast
  with io_from_trans [OF w this(2)] s' show ?thesis by auto
qed

lemma drain_iteration_io:
  assumes "drain_iteration cfg p s = Inr s'"
  shows "f_out_live s' = f_out_live s
         \<and> (\<exists>cs. io_from (wld s) (wld s') (live_writes (f_out_live s) cs))"
proof (cases "halfReady p")
  case False
  with assms have "f_out_live s' = f_out_live s" "wld s' = wld s"
    by (auto simp: drain_iteration_def split: if_splits)
  then have "io_from (wld s) (wld s') (live_writes (f_out_live s) [])"
    by (simp add: live_writes_def io_from_refl split: option.splits)
  with \<open>f_out_live s' = f_out_live s\<close> show ?thesis by blast
next
  case True
  with assms obtain s1 where h: "half_ready cfg p (s\<lparr>g_fStop := fStop p\<rparr>) = Inr s1"
    and s': "s' = (if esc p then s1\<lparr>g_fStop := True, exit_now := True\<rparr> else s1)"
    by (auto simp: drain_iteration_def split: sum.splits)
  from half_ready_io [OF h] s' show ?thesis by (auto split: if_splits)
qed

lemma live_writes_append: "live_writes f a @ live_writes f b = live_writes f (a @ b)"
  by (simp add: live_writes_def split: option.splits)

lemma drain_loop_io:
  "drain_loop cfg ps s = Inr s' \<Longrightarrow>
   f_out_live s' = f_out_live s
   \<and> (\<exists>cs. io_from (wld s) (wld s') (live_writes (f_out_live s) cs))"
proof (induction ps arbitrary: s)
  case Nil
  then have "s' = s" by (simp split: if_splits)
  then have "io_from (wld s) (wld s') (live_writes (f_out_live s) [])"
    by (simp add: live_writes_def io_from_refl split: option.splits)
  with \<open>s' = s\<close> show ?case by blast
next
  case (Cons p ps)
  show ?case
  proof (cases "g_fStop s")
    case True
    with Cons.prems have "s' = s" by simp
    then have "io_from (wld s) (wld s') (live_writes (f_out_live s) [])"
      by (simp add: live_writes_def io_from_refl split: option.splits)
    with \<open>s' = s\<close> show ?thesis by blast
  next
    case False
    with Cons.prems obtain s1 where
      a: "drain_iteration cfg p s = Inr s1" and b: "drain_loop cfg ps s1 = Inr s'"
      by (auto split: sum.splits)
    from drain_iteration_io [OF a] obtain c1 where
      c1: "f_out_live s1 = f_out_live s" "io_from (wld s) (wld s1) (live_writes (f_out_live s) c1)"
      by blast
    from Cons.IH [OF b] c1(1) obtain c2 where
      c2: "f_out_live s' = f_out_live s" "io_from (wld s1) (wld s') (live_writes (f_out_live s) c2)"
      by auto
    from io_from_trans [OF c1(2) c2(2)] c2(1) show ?thesis
      unfolding live_writes_append by blast
  qed
qed


lemma fwrite_block_io:
  "fwrite_block p n f w = Inr w' \<Longrightarrow>
   \<exists>ops. io_from w w' ops \<and> (\<forall>op\<in>set ops. \<forall>q. touches q op \<longrightarrow> q = f)"
proof -
  assume a: "fwrite_block p n f w = Inr w'"
  show ?thesis
  proof (cases "n = 0")
    case True
    with a have "w' = w" by (simp add: fwrite_block_def)
    then have "io_from w w' []" by (simp add: io_from_refl)
    then show ?thesis by force
  next
    case False
    with a obtain c where "w' = fwrite (take n c) f w"
      by (auto simp: fwrite_block_def split: option.splits if_splits)
    then have "io_from w w' [Fwrite f (take n c)]"
      by (simp add: fwrite_def io_from_do_io)
    then show ?thesis by force
  qed
qed

lemma write_event_io:
  assumes "write_event f i w = Inr w'"
  shows "\<exists>ops. io_from w w' ops \<and> (\<forall>op\<in>set ops. \<forall>q. touches q op \<longrightarrow> q = f)"
proof -
  from assms obtain w1 w2 where
    a: "fwrite_block (data (g_data_buffer w ! i)) (size' (g_data_buffer w ! i)) f w = Inr w1"
    and b: "free (data (g_data_buffer w1 ! i)) w1 = Inr w2"
    and c: "w' = w2\<lparr>g_data_buffer := (g_data_buffer w2)[i := \<lparr>data = NULL, size' = 0\<rparr>]\<rparr>"
    by (auto simp: write_event_def split: if_splits sum.splits)
  from fwrite_block_io [OF a] obtain ops where
    ops: "io_from w w1 ops" "\<forall>op\<in>set ops. \<forall>q. touches q op \<longrightarrow> q = f" by blast
  from free_io [OF b] c have "io_log w' = io_log w1" "files w' = files w1" by simp_all
  from io_from_eq [OF ops(1) this] ops(2) show ?thesis by blast
qed

lemma write_events_io:
  "write_events f n i w = Inr w' \<Longrightarrow>
   \<exists>ops. io_from w w' ops \<and> (\<forall>op\<in>set ops. \<forall>q. touches q op \<longrightarrow> q = f)"
proof (induction f n i w rule: write_events.induct)
  case (1 f n i w)
  show ?case
  proof (cases "i < n")
    case False
    with "1.prems" have "w' = w" by (simp add: write_events.simps [of f n i])
    then have "io_from w w' []" by (simp add: io_from_refl)
    then show ?thesis by force
  next
    case True
    with "1.prems" obtain w1 where
      a: "write_event f i w = Inr w1" and b: "write_events f n (Suc i) w1 = Inr w'"
      by (auto simp: write_events.simps [of f n i] split: sum.splits)
    from write_event_io [OF a] obtain o1 where
      o1: "io_from w w1 o1" "\<forall>op\<in>set o1. \<forall>q. touches q op \<longrightarrow> q = f" by blast
    from "1.IH" [OF True a b] obtain o2 where
      o2: "io_from w1 w' o2" "\<forall>op\<in>set o2. \<forall>q. touches q op \<longrightarrow> q = f" by blast
    from io_from_trans [OF o1(1) o2(1)] o1(2) o2(2) show ?thesis
      by (intro exI [of _ "o1 @ o2"]) auto
  qed
qed

lemma save_batch_to_file_io:
  assumes "save_batch_to_file t ok w = Inr w'"
  shows "\<exists>ops. io_from w w' ops
           \<and> (\<forall>op\<in>set ops. \<forall>q. touches q op \<longrightarrow> q = log_filepath t (g_buffered_count w))"
proof (cases "g_buffered_count w = 0 \<or> \<not> ok")
  case True
  have "io_log w' = io_log w \<and> files w' = files w"
  proof (cases "g_buffered_count w = 0")
    case True
    with assms show ?thesis by (simp add: save_batch_to_file_empty)
  next
    case False
    with True have "\<not> ok" by simp
    with assms False show ?thesis by (auto simp: save_batch_to_file_not_opened)
  qed
  then have "io_from w w' []" by (simp add: io_from_same)
  then show ?thesis by force
next
  case False
  let ?f = "log_filepath t (g_buffered_count w)"
  let ?h = "batch_header t (g_buffered_count w)"
  let ?w0 = "fwrite ?h ?f (do_io (Fopen ?f) w)"
  from False assms obtain w1 where
    a: "write_events ?f (g_buffered_count w) 0 ?w0 = Inr w1"
    and b: "io_log w' = io_log (fclose ?f w1)" "files w' = files (fclose ?f w1)"
    by (auto simp: save_batch_to_file_def fopen_wb_def split: sum.splits)
  have o0: "io_from w ?w0 ([Fopen ?f] @ [Fwrite ?f ?h])"
    unfolding fwrite_def by (rule io_from_trans [OF io_from_do_io io_from_do_io])
  from write_events_io [OF a] obtain o1 where
    o1: "io_from ?w0 w1 o1" "\<forall>op\<in>set o1. \<forall>q. touches q op \<longrightarrow> q = ?f" by blast
  have o2: "io_from w1 (fclose ?f w1) [Fclose ?f]"
    unfolding fclose_def by (rule io_from_do_io)
  from io_from_eq [OF io_from_trans [OF io_from_trans [OF o0 o1(1)] o2] b]
  have "io_from w w' (([Fopen ?f] @ [Fwrite ?f ?h]) @ o1 @ [Fclose ?f])" by simp
  moreover have "\<forall>op\<in>set (([Fopen ?f] @ [Fwrite ?f ?h]) @ o1 @ [Fclose ?f]).
                   \<forall>q. touches q op \<longrightarrow> q = ?f"
    using o1(2) by auto
  ultimately show ?thesis by blast
qed

lemma batch_append_io:
  "batch_append p n w = Inr w' \<Longrightarrow> io_log w' = io_log w \<and> files w' = files w"
  by (auto simp: batch_append_def split: if_splits)

lemma store_event_io:
  assumes "store_event cfg ev s w = Inr w'"
  shows "\<exists>ops n. io_from w w' ops
           \<and> (\<forall>op\<in>set ops. \<forall>q. touches q op \<longrightarrow> q = log_filepath (flush_time ev) n)"
proof (cases "current_acq_buffer s \<noteq> NULL \<and> current_acq_size s > 0")
  case False
  with assms have "w' = w" by (auto simp: store_event_def)
  then have "io_from w w' []" by (simp add: io_from_refl)
  then show ?thesis by force
next
  case True
  with assms obtain w1 where
    a: "batch_append (current_acq_buffer s) (current_acq_size s) w = Inr w1"
    and b: "(if g_buffered_count w1 \<ge> MAX_EVENT_BATCH cfg
             then save_batch_to_file (flush_time ev) (log_fopen_ok ev) w1 else Inr w1) = Inr w'"
    by (auto simp: store_event_def split: sum.splits)
  from batch_append_io [OF a] have w1: "io_from w w1 []" by (simp add: io_from_same)
  show ?thesis
  proof (cases "g_buffered_count w1 \<ge> MAX_EVENT_BATCH cfg")
    case False
    with b w1 have "io_from w w' []" by simp
    then show ?thesis by force
  next
    case full: True
    with b have "save_batch_to_file (flush_time ev) (log_fopen_ok ev) w1 = Inr w'" by simp
    from save_batch_to_file_io [OF this] obtain ops where
      ops: "io_from w1 w' ops"
      "\<forall>op\<in>set ops. \<forall>q. touches q op \<longrightarrow> q = log_filepath (flush_time ev) (g_buffered_count w1)"
      by blast
    from io_from_trans [OF w1 ops(1)] ops(2) show ?thesis by auto
  qed
qed

section \<open>The paths are different\<close>

lemma live_paths:
  "live_filepath_tmp = ''live'' @ [backslash] @ ''live_acquisition_ui.tmp''"
  "live_filepath_final = ''live'' @ [backslash] @ ''live_acquisition_ui.bin''"
  by (simp_all add: live_filepath_tmp_def live_filepath_final_def snprintf_def MAX_PATH_def
      LIVE_FOLDER_def LIVE_UI_FILENAME_def)

lemma live_tmp_not_final: "live_filepath_tmp \<noteq> live_filepath_final"
  by (simp add: live_paths)

lemma log_filepath_start: "\<exists>rest. log_filepath t n = CHR ''l'' # CHR ''o'' # rest"
  by (simp add: log_filepath_def snprintf_def MAX_PATH_def LOG_FOLDER_def)

lemma log_not_live:
  "log_filepath t n \<noteq> live_filepath_tmp" "log_filepath t n \<noteq> live_filepath_final"
  using log_filepath_start [of t n] by (auto simp: live_paths)


section \<open>The visible live file is always a whole snapshot\<close>

lemma apply_op_untouched: "\<not> touches p op \<Longrightarrow> apply_op op fs p = fs p"
  by (cases op) (auto split: option.splits)

lemma replay_untouched: "\<forall>op\<in>set ops. \<not> touches p op \<Longrightarrow> replay ops fs p = fs p"
  by (induction ops arbitrary: fs) (simp_all add: apply_op_untouched)

lemma publishes_whole_append:
  "publishes_whole (a @ b) fs st
   = (publishes_whole a fs st \<and> publishes_whole b (replay a fs) (foldl snap_step st a))"
  by (induction a arbitrary: fs st) auto

lemma publishes_whole_untouched:
  "\<forall>op\<in>set ops. \<not> touches live_filepath_final op \<Longrightarrow> publishes_whole ops fs st"
  by (induction ops arbitrary: fs st) (simp_all add: apply_op_untouched)

lemma replay_writes:
  "fs p = Some c \<Longrightarrow> replay (map (Fwrite p) cs) fs p = Some (c @ concat cs)"
  by (induction cs arbitrary: fs c) simp_all

lemma snap_writes:
  "foldl snap_step (closed, Some acc) (map (Fwrite live_filepath_tmp) cs)
   = (closed, Some (acc @ concat cs))"
  by (induction cs arbitrary: acc) simp_all

lemma replay_written_tmp:
  "replay (Fopen live_filepath_tmp # map (Fwrite live_filepath_tmp) cs
           @ [Fclose live_filepath_tmp]) fs live_filepath_tmp = Some (concat cs)"
  by (simp add: replay_append replay_writes)

lemma snap_written_tmp:
  "foldl snap_step (closed, cur) (Fopen live_filepath_tmp # map (Fwrite live_filepath_tmp) cs
           @ [Fclose live_filepath_tmp]) = (closed @ [concat cs], None)"
  by (simp add: snap_writes)

lemma publishes_whole_live_publication:
  "publishes_whole (live_publication cs moved) fs st"
proof -
  let ?w = "Fopen live_filepath_tmp # map (Fwrite live_filepath_tmp) cs
            @ [Fclose live_filepath_tmp]"
  obtain closed cur where st: "st = (closed, cur)" by (cases st)
  have unt: "\<forall>op\<in>set ?w. \<not> touches live_filepath_final op"
    using live_tmp_not_final by auto
  have a: "publishes_whole ?w fs st" by (rule publishes_whole_untouched [OF unt])
  have b: "publishes_whole [MoveFile live_filepath_tmp live_filepath_final]
             (replay ?w fs) (foldl snap_step st ?w)"
    unfolding st snap_written_tmp
    using replay_written_tmp [of cs fs] by simp
  have "live_publication cs moved
        = ?w @ (if moved then [MoveFile live_filepath_tmp live_filepath_final] else [])"
    by (simp add: live_publication_def)
  then show ?thesis
    using a b by (simp only: publishes_whole_append) simp
qed

text \<open>The operations of one trigger cycle: at most one live publication, then the flush.\<close>

lemma acquire_event_io:
  assumes "acquire_event cfg ev w = Inr (ex, w')"
  shows "\<exists>cs fl. io_from w w'
                   ((if live_fopen_ok ev \<and> \<not> esc_while_armed ev
                     then live_publication cs (move_ok ev) else []) @ fl)
           \<and> (\<forall>op\<in>set fl. \<not> touches live_filepath_tmp op \<and> \<not> touches live_filepath_final op)"
  using assms
proof (cases rule: acquire_event_cases)
  case armed
  then have "io_from w w'
               ((if live_fopen_ok ev \<and> \<not> esc_while_armed ev
                 then live_publication [] (move_ok ev) else []) @ [])"
    by (simp add: io_from_refl)
  then show ?thesis by (intro exI [of _ "[]"] conjI) simp_all
next
  case (ran s)
  let ?f = "fst (fopen_wb live_filepath_tmp (live_fopen_ok ev) w)"
  let ?w0 = "snd (fopen_wb live_filepath_tmp (live_fopen_ok ev) w)"
  from drain_loop_io [OF ran(4)] obtain cs where
    dl: "f_out_live s = ?f" "io_from ?w0 (wld s) (live_writes ?f cs)"
    by (auto simp: drain_start_def)
  from store_event_io [OF ran(5)] obtain fl n where
    fl: "io_from (publish_live (move_ok ev) s) w' fl"
    "\<forall>op\<in>set fl. \<forall>q. touches q op \<longrightarrow> q = log_filepath (flush_time ev) n"
    by blast
  have unt: "\<forall>op\<in>set fl. \<not> touches live_filepath_tmp op \<and> \<not> touches live_filepath_final op"
    using fl(2) log_not_live [of "flush_time ev" n] by metis
  show ?thesis
  proof (cases "live_fopen_ok ev")
    case False
    then have "?f = None" "?w0 = w" by (simp_all add: fopen_wb_def)
    with dl have "io_from w (publish_live (move_ok ev) s) []"
      by (simp add: publish_live_def live_writes_def)
    from io_from_trans [OF this fl(1)] False
    have "io_from w w'
            ((if live_fopen_ok ev \<and> \<not> esc_while_armed ev
              then live_publication [] (move_ok ev) else []) @ fl)"
      by simp
    with unt show ?thesis by blast
  next
    case True
    then have f: "?f = Some live_filepath_tmp" "?w0 = do_io (Fopen live_filepath_tmp) w"
      by (simp_all add: fopen_wb_def)
    have o0: "io_from w ?w0 [Fopen live_filepath_tmp]"
      unfolding f by (rule io_from_do_io)
    have o1: "io_from ?w0 (wld s) (map (Fwrite live_filepath_tmp) cs)"
      using dl(2) f(1) by (simp add: live_writes_def)
    have o2: "io_from (wld s) (fclose live_filepath_tmp (wld s)) [Fclose live_filepath_tmp]"
      unfolding fclose_def by (rule io_from_do_io)
    have o3: "io_from (fclose live_filepath_tmp (wld s)) (publish_live (move_ok ev) s)
                (if move_ok ev then [MoveFile live_filepath_tmp live_filepath_final] else [])"
      using dl(1) f(1) by (simp add: publish_live_def MoveFileExA_def io_from_do_io io_from_refl)
    from io_from_trans [OF io_from_trans [OF io_from_trans [OF io_from_trans
           [OF o0 o1] o2] o3] fl(1)]
    have "io_from w w' (live_publication cs (move_ok ev) @ fl)"
      by (simp add: live_publication_def)
    with True ran(2) have "io_from w w'
            ((if live_fopen_ok ev \<and> \<not> esc_while_armed ev
              then live_publication cs (move_ok ev) else []) @ fl)"
      by simp
    with unt show ?thesis by blast
  qed
qed

lemma acquire_event_publishes_whole:
  assumes "acquire_event cfg ev w = Inr (ex, w')"
  shows "\<exists>ops. io_from w w' ops \<and> (\<forall>fs st. publishes_whole ops fs st)"
proof -
  from acquire_event_io [OF assms] obtain cs fl where
    io: "io_from w w'
           ((if live_fopen_ok ev \<and> \<not> esc_while_armed ev
             then live_publication cs (move_ok ev) else []) @ fl)"
    and unt: "\<forall>op\<in>set fl. \<not> touches live_filepath_tmp op \<and> \<not> touches live_filepath_final op"
    by blast
  have fl: "\<And>fs st. publishes_whole fl fs st"
    using unt by (intro publishes_whole_untouched) simp
  have "\<And>fs st. publishes_whole (live_publication cs (move_ok ev) @ fl) fs st"
    by (simp only: publishes_whole_append publishes_whole_live_publication fl)
  with fl have "\<And>fs st. publishes_whole
           ((if live_fopen_ok ev \<and> \<not> esc_while_armed ev
             then live_publication cs (move_ok ev) else []) @ fl) fs st"
    by simp
  with io show ?thesis by blast
qed

lemma event_loop_publishes_whole:
  "event_loop cfg evs w = Inr (ex, w') \<Longrightarrow>
   \<exists>ops. io_from w w' ops \<and> (\<forall>fs st. publishes_whole ops fs st)"
proof (induction evs arbitrary: w)
  case Nil
  then have "io_from w w' []" by (simp add: io_from_refl)
  then show ?case by force
next
  case (Cons ev evs)
  from Cons.prems obtain ex1 w1 where
    a: "acquire_event cfg ev w = Inr (ex1, w1)"
    and b: "if ex1 then w' = w1 else event_loop cfg evs w1 = Inr (ex, w')"
    by (auto split: sum.splits if_splits)
  from acquire_event_publishes_whole [OF a] obtain o1 where
    o1: "io_from w w1 o1" "\<forall>fs st. publishes_whole o1 fs st" by blast
  show ?case
  proof (cases ex1)
    case True
    with b o1 show ?thesis by auto
  next
    case False
    with b have "event_loop cfg evs w1 = Inr (ex, w')" by simp
    from Cons.IH [OF this] obtain o2 where
      o2: "io_from w1 w' o2" "\<forall>fs st. publishes_whole o2 fs st" by blast
    have "\<forall>fs st. publishes_whole (o1 @ o2) fs st"
      unfolding publishes_whole_append using o1(2) o2(2) by blast
    with io_from_trans [OF o1(1) o2(1)] show ?thesis by blast
  qed
qed

section \<open>The file operations of a trigger cycle of ori.c\<close>

lemma ori_half_ready_io:
  assumes "ori_half_ready cfg p s = Inr (broke, s')"
  shows "f_out_live s' = f_out_live s
         \<and> (\<exists>cs. io_from (wld s) (wld s') (live_writes (f_out_live s) cs))"
proof -
  let ?src = "if current_buffer_idx s = 0 then ai_buf p else ai_buf2 p"
  from assms obtain q w where
    r: "realloc (current_acq_buffer s) (current_acq_size s + chunk_size cfg) (realloc_ok p) (wld s)
        = Inr (q, w)"
    by (auto simp: ori_half_ready_def Let_def split: sum.splits)
  from realloc_io [OF r] have w: "io_from (wld s) w []" by (simp add: io_from_same)
  show ?thesis
  proof (cases "q = NULL")
    case True
    with assms r obtain w1 where f: "free (current_acq_buffer s) w = Inr w1"
      and s': "s' = s\<lparr>g_fStop := True, current_acq_buffer := NULL, wld := w1\<rparr>"
      by (auto simp: ori_half_ready_def Let_def split: sum.splits)
    from free_io [OF f] w have "io_from (wld s) w1 []" by (simp add: io_from_def)
    then have "io_from (wld s) (wld s') (live_writes (f_out_live s) [])"
      using s' by (simp add: live_writes_def split: option.splits)
    with s' show ?thesis by auto
  next
    case False
    with assms r obtain w1 f where
      m: "memcpy q (current_acq_size s) (bytes_of_samples ?src) (chunk_size cfg) w = Inr w1"
      and fo: "f_out_live s = Some f"
      and s': "s' = s\<lparr>current_acq_buffer := q,
                      current_acq_size := current_acq_size s + chunk_size cfg,
                      wld := fwrite (take (chunk_size cfg) (bytes_of_samples ?src)) f w1,
                      current_buffer_idx := 1 - current_buffer_idx s\<rparr>"
      by (auto simp: ori_half_ready_def Let_def split: sum.splits option.splits)
    let ?c = "take (chunk_size cfg) (bytes_of_samples ?src)"
    from memcpy_io [OF m] w have w1: "io_from (wld s) w1 []" by (simp add: io_from_def)
    have "io_from w1 (fwrite ?c f w1) [Fwrite f ?c]"
      unfolding fwrite_def by (rule io_from_do_io)
    from io_from_trans [OF w1 this] fo s'
    have "io_from (wld s) (wld s') (live_writes (f_out_live s) [?c])"
      by (simp add: live_writes_def)
    with s' show ?thesis by auto
  qed
qed

lemma ori_drain_iteration_io:
  assumes "ori_drain_iteration cfg p s = Inr s'"
  shows "f_out_live s' = f_out_live s
         \<and> (\<exists>cs. io_from (wld s) (wld s') (live_writes (f_out_live s) cs))"
proof (cases "halfReady p")
  case False
  with assms have "f_out_live s' = f_out_live s" "wld s' = wld s"
    by (auto simp: ori_drain_iteration_def split: if_splits)
  then have "io_from (wld s) (wld s') (live_writes (f_out_live s) [])"
    by (simp add: live_writes_def io_from_refl split: option.splits)
  with \<open>f_out_live s' = f_out_live s\<close> show ?thesis by blast
next
  case True
  with assms obtain broke s1 where
    h: "ori_half_ready cfg p (s\<lparr>g_fStop := fStop p\<rparr>) = Inr (broke, s1)"
    and s': "s' = (if \<not> broke \<and> esc p then s1\<lparr>g_fStop := True, exit_now := True\<rparr> else s1)"
    by (auto simp: ori_drain_iteration_def split: sum.splits)
  from ori_half_ready_io [OF h] s' show ?thesis by (auto split: if_splits)
qed

lemma ori_drain_loop_io:
  "ori_drain_loop cfg ps s = Inr s' \<Longrightarrow>
   f_out_live s' = f_out_live s
   \<and> (\<exists>cs. io_from (wld s) (wld s') (live_writes (f_out_live s) cs))"
proof (induction ps arbitrary: s)
  case Nil
  then have "s' = s" by (simp split: if_splits)
  then have "io_from (wld s) (wld s') (live_writes (f_out_live s) [])"
    by (simp add: live_writes_def io_from_refl split: option.splits)
  with \<open>s' = s\<close> show ?case by blast
next
  case (Cons p ps)
  show ?case
  proof (cases "g_fStop s")
    case True
    with Cons.prems have "s' = s" by simp
    then have "io_from (wld s) (wld s') (live_writes (f_out_live s) [])"
      by (simp add: live_writes_def io_from_refl split: option.splits)
    with \<open>s' = s\<close> show ?thesis by blast
  next
    case False
    with Cons.prems obtain s1 where
      a: "ori_drain_iteration cfg p s = Inr s1" and b: "ori_drain_loop cfg ps s1 = Inr s'"
      by (auto split: sum.splits)
    from ori_drain_iteration_io [OF a] obtain c1 where
      c1: "f_out_live s1 = f_out_live s" "io_from (wld s) (wld s1) (live_writes (f_out_live s) c1)"
      by blast
    from Cons.IH [OF b] c1(1) obtain c2 where
      c2: "f_out_live s' = f_out_live s" "io_from (wld s1) (wld s') (live_writes (f_out_live s) c2)"
      by auto
    from io_from_trans [OF c1(2) c2(2)] c2(1) show ?thesis
      unfolding live_writes_append by blast
  qed
qed

lemma ori_save_batch_to_file_io:
  assumes "ori_save_batch_to_file t ok w = Inr w'"
  shows "\<exists>ops. io_from w w' ops
           \<and> (\<forall>op\<in>set ops. \<forall>q. touches q op \<longrightarrow> q = log_filepath t (g_buffered_count w))"
proof (cases "g_buffered_count w = 0 \<or> \<not> ok")
  case True
  have "io_log w' = io_log w \<and> files w' = files w"
  proof (cases "g_buffered_count w = 0")
    case True
    with assms show ?thesis by (simp add: ori_save_batch_to_file_def)
  next
    case False
    with True have "\<not> ok" by simp
    with assms False show ?thesis by (auto simp: ori_save_batch_to_file_def fopen_wb_def)
  qed
  then have "io_from w w' []" by (simp add: io_from_same)
  then show ?thesis by force
next
  case False
  let ?f = "log_filepath t (g_buffered_count w)"
  let ?h = "ori_batch_header t (g_buffered_count w)"
  let ?w0 = "fwrite ?h ?f (do_io (Fopen ?f) w)"
  from False assms obtain w1 where
    a: "write_events ?f (g_buffered_count w) 0 ?w0 = Inr w1"
    and b: "io_log w' = io_log (fclose ?f w1)" "files w' = files (fclose ?f w1)"
    by (auto simp: ori_save_batch_to_file_def fopen_wb_def split: sum.splits)
  have o0: "io_from w ?w0 ([Fopen ?f] @ [Fwrite ?f ?h])"
    unfolding fwrite_def by (rule io_from_trans [OF io_from_do_io io_from_do_io])
  from write_events_io [OF a] obtain o1 where
    o1: "io_from ?w0 w1 o1" "\<forall>op\<in>set o1. \<forall>q. touches q op \<longrightarrow> q = ?f" by blast
  have o2: "io_from w1 (fclose ?f w1) [Fclose ?f]"
    unfolding fclose_def by (rule io_from_do_io)
  from io_from_eq [OF io_from_trans [OF io_from_trans [OF o0 o1(1)] o2] b]
  have "io_from w w' (([Fopen ?f] @ [Fwrite ?f ?h]) @ o1 @ [Fclose ?f])" by simp
  moreover have "\<forall>op\<in>set (([Fopen ?f] @ [Fwrite ?f ?h]) @ o1 @ [Fclose ?f]).
                   \<forall>q. touches q op \<longrightarrow> q = ?f"
    using o1(2) by auto
  ultimately show ?thesis by blast
qed

lemma ori_store_event_io:
  assumes "ori_store_event cfg ev s w = Inr w'"
  shows "\<exists>ops n. io_from w w' ops
           \<and> (\<forall>op\<in>set ops. \<forall>q. touches q op \<longrightarrow> q = log_filepath (flush_time ev) n)"
proof (cases "current_acq_buffer s \<noteq> NULL \<and> current_acq_size s > 0")
  case False
  with assms have "w' = w" by (auto simp: ori_store_event_def)
  then have "io_from w w' []" by (simp add: io_from_refl)
  then show ?thesis by force
next
  case True
  with assms obtain w1 where
    a: "batch_append (current_acq_buffer s) (current_acq_size s) w = Inr w1"
    and b: "(if g_buffered_count w1 \<ge> MAX_EVENT_BATCH cfg
             then ori_save_batch_to_file (flush_time ev) (log_fopen_ok ev) w1 else Inr w1) = Inr w'"
    by (auto simp: ori_store_event_def split: sum.splits)
  from batch_append_io [OF a] have w1: "io_from w w1 []" by (simp add: io_from_same)
  show ?thesis
  proof (cases "g_buffered_count w1 \<ge> MAX_EVENT_BATCH cfg")
    case False
    with b w1 have "io_from w w' []" by simp
    then show ?thesis by force
  next
    case full: True
    with b have "ori_save_batch_to_file (flush_time ev) (log_fopen_ok ev) w1 = Inr w'" by simp
    from ori_save_batch_to_file_io [OF this] obtain ops where
      ops: "io_from w1 w' ops"
      "\<forall>op\<in>set ops. \<forall>q. touches q op \<longrightarrow> q = log_filepath (flush_time ev) (g_buffered_count w1)"
      by blast
    from io_from_trans [OF w1 ops(1)] ops(2) show ?thesis by auto
  qed
qed

lemma ori_acquire_event_io:
  assumes "ori_acquire_event cfg ev w = Inr (ex, w')"
  shows "\<exists>cs fl. io_from w w'
                   ((if live_fopen_ok ev \<and> \<not> esc_while_armed ev
                     then live_publication cs (move_ok ev) else []) @ fl)
           \<and> (\<forall>op\<in>set fl. \<not> touches live_filepath_tmp op \<and> \<not> touches live_filepath_final op)"
proof (cases "esc_while_armed ev \<or> \<not> live_fopen_ok ev")
  case True
  with assms have "w' = w"
    by (auto simp: ori_acquire_event_def fopen_wb_def split: if_splits)
  with True have "io_from w w'
               ((if live_fopen_ok ev \<and> \<not> esc_while_armed ev
                 then live_publication [] (move_ok ev) else []) @ [])"
    by (auto simp: io_from_refl)
  then show ?thesis by (intro exI [of _ "[]"] conjI) simp_all
next
  case False
  let ?w0 = "do_io (Fopen live_filepath_tmp) w"
  from False assms obtain s where
    dl: "ori_drain_loop cfg (polls ev) (ori_drain_start (Some live_filepath_tmp) ?w0) = Inr s"
    and st: "ori_store_event cfg ev s (ori_publish_live (move_ok ev) s) = Inr w'"
    by (auto simp: ori_acquire_event_def fopen_wb_def split: if_splits sum.splits)
  from ori_drain_loop_io [OF dl] obtain cs where
    d: "f_out_live s = Some live_filepath_tmp"
    "io_from ?w0 (wld s) (map (Fwrite live_filepath_tmp) cs)"
    by (auto simp: ori_drain_start_def live_writes_def)
  from ori_store_event_io [OF st] obtain fl n where
    fl: "io_from (ori_publish_live (move_ok ev) s) w' fl"
    "\<forall>op\<in>set fl. \<forall>q. touches q op \<longrightarrow> q = log_filepath (flush_time ev) n"
    by blast
  have unt: "\<forall>op\<in>set fl. \<not> touches live_filepath_tmp op \<and> \<not> touches live_filepath_final op"
    using fl(2) log_not_live [of "flush_time ev" n] by metis
  have o0: "io_from w ?w0 [Fopen live_filepath_tmp]" by (rule io_from_do_io)
  have o2: "io_from (wld s) (fclose live_filepath_tmp (wld s)) [Fclose live_filepath_tmp]"
    unfolding fclose_def by (rule io_from_do_io)
  have o3: "io_from (fclose live_filepath_tmp (wld s)) (ori_publish_live (move_ok ev) s)
              (if move_ok ev then [MoveFile live_filepath_tmp live_filepath_final] else [])"
    using d(1) by (simp add: ori_publish_live_def MoveFileExA_def io_from_do_io io_from_refl)
  from io_from_trans [OF io_from_trans [OF io_from_trans [OF io_from_trans
         [OF o0 d(2)] o2] o3] fl(1)]
  have "io_from w w' (live_publication cs (move_ok ev) @ fl)"
    by (simp add: live_publication_def)
  with False have "io_from w w'
            ((if live_fopen_ok ev \<and> \<not> esc_while_armed ev
              then live_publication cs (move_ok ev) else []) @ fl)"
    by simp
  with unt show ?thesis by blast
qed

lemma ori_acquire_event_publishes_whole:
  assumes "ori_acquire_event cfg ev w = Inr (ex, w')"
  shows "\<exists>cs fl. io_from w w'
                   ((if live_fopen_ok ev \<and> \<not> esc_while_armed ev
                     then live_publication cs (move_ok ev) else []) @ fl)
           \<and> (\<forall>op\<in>set fl. \<not> touches live_filepath_tmp op \<and> \<not> touches live_filepath_final op)
           \<and> (\<forall>fs st. publishes_whole
                   ((if live_fopen_ok ev \<and> \<not> esc_while_armed ev
                     then live_publication cs (move_ok ev) else []) @ fl) fs st)"
proof -
  from ori_acquire_event_io [OF assms] obtain cs fl where
    io: "io_from w w'
           ((if live_fopen_ok ev \<and> \<not> esc_while_armed ev
             then live_publication cs (move_ok ev) else []) @ fl)"
    and unt: "\<forall>op\<in>set fl. \<not> touches live_filepath_tmp op \<and> \<not> touches live_filepath_final op"
    by blast
  have fl: "\<And>fs st. publishes_whole fl fs st"
    using unt by (intro publishes_whole_untouched) simp
  have "\<And>fs st. publishes_whole (live_publication cs (move_ok ev) @ fl) fs st"
    by (simp only: publishes_whole_append publishes_whole_live_publication fl)
  with fl have "\<And>fs st. publishes_whole
           ((if live_fopen_ok ev \<and> \<not> esc_while_armed ev
             then live_publication cs (move_ok ev) else []) @ fl) fs st"
    by simp
  with io unt show ?thesis by blast
qed

lemma ori_one_chunk_event_run:
  "\<exists>w'. ori_acquire_event two_channel_config (one_chunk_event True)
          (initial_world two_channel_config no_files) = Inr (False, w')"
  by (simp add: ori_acquire_event_def fopen_wb_def one_chunk_event_def poll_only_def
      ori_drain_start_def ori_drain_iteration_def ori_half_ready_def realloc_def
      initial_world_def two_channel_config_def chunk_size_def NULL_def memcpy_def
      do_io_def fwrite_def fclose_def ori_publish_live_def MoveFileExA_def
      ori_store_event_def batch_append_def Let_def)

text \<open>
  C8. Every trigger cycle, of src/cadgetdata.c and of ori.c, issues its file operations
  in this order: open the temporary live file, write the chunks to it, close it, rename
  it to the visible path (one operation), and after that the operations of a flush,
  which touch neither of the two live paths; a cycle that cannot open the temporary file
  issues at most those of the flush. Hence, over the operations of a whole run and after
  each single one of them, the visible live file either is what it was before that
  operation or is a snapshot that had been written in full to the temporary file and
  closed.
\<close>

theorem live_snapshot_published_whole:
  "(event_loop cfg evs w = Inr (ex, w') \<longrightarrow>
      (\<exists>ops. io_log w' = io_log w @ ops \<and> files w' = replay ops (files w)
         \<and> publishes_whole ops (files w) ([], None)))
   \<and> (acquire_event cfg ev w = Inr (ex, w') \<longrightarrow>
      (\<exists>cs fl. io_log w' = io_log w
                  @ (if live_fopen_ok ev \<and> \<not> esc_while_armed ev
                     then live_publication cs (move_ok ev) else []) @ fl
         \<and> list_all (\<lambda>op. \<not> touches live_filepath_tmp op
                              \<and> \<not> touches live_filepath_final op) fl))
   \<and> (ori_acquire_event cfg ev w = Inr (ex, w') \<longrightarrow>
      (\<exists>cs fl. io_log w' = io_log w
                  @ (if live_fopen_ok ev \<and> \<not> esc_while_armed ev
                     then live_publication cs (move_ok ev) else []) @ fl
         \<and> files w' = replay ((if live_fopen_ok ev \<and> \<not> esc_while_armed ev
                                then live_publication cs (move_ok ev) else []) @ fl) (files w)
         \<and> list_all (\<lambda>op. \<not> touches live_filepath_tmp op
                              \<and> \<not> touches live_filepath_final op) fl
         \<and> publishes_whole ((if live_fopen_ok ev \<and> \<not> esc_while_armed ev
                              then live_publication cs (move_ok ev) else []) @ fl)
             (files w) ([], None)))"
proof (intro conjI impI)
  assume "event_loop cfg evs w = Inr (ex, w')"
  from event_loop_publishes_whole [OF this] obtain ops where
    "io_from w w' ops" "\<forall>fs st. publishes_whole ops fs st" by blast
  then show "\<exists>ops. io_log w' = io_log w @ ops \<and> files w' = replay ops (files w)
         \<and> publishes_whole ops (files w) ([], None)"
    unfolding io_from_def by blast
next
  assume "acquire_event cfg ev w = Inr (ex, w')"
  from acquire_event_io [OF this] obtain cs fl where
    "io_from w w'
           ((if live_fopen_ok ev \<and> \<not> esc_while_armed ev
             then live_publication cs (move_ok ev) else []) @ fl)"
    "\<forall>op\<in>set fl. \<not> touches live_filepath_tmp op \<and> \<not> touches live_filepath_final op"
    by blast
  then show "\<exists>cs fl. io_log w' = io_log w
                  @ (if live_fopen_ok ev \<and> \<not> esc_while_armed ev
                     then live_publication cs (move_ok ev) else []) @ fl
         \<and> list_all (\<lambda>op. \<not> touches live_filepath_tmp op
                              \<and> \<not> touches live_filepath_final op) fl"
    unfolding io_from_def list_all_iff by blast
next
  assume "ori_acquire_event cfg ev w = Inr (ex, w')"
  from ori_acquire_event_publishes_whole [OF this] obtain cs fl where
    "io_from w w'
           ((if live_fopen_ok ev \<and> \<not> esc_while_armed ev
             then live_publication cs (move_ok ev) else []) @ fl)"
    "\<forall>op\<in>set fl. \<not> touches live_filepath_tmp op \<and> \<not> touches live_filepath_final op"
    "\<forall>fs st. publishes_whole
                   ((if live_fopen_ok ev \<and> \<not> esc_while_armed ev
                     then live_publication cs (move_ok ev) else []) @ fl) fs st"
    by blast
  then show "\<exists>cs fl. io_log w' = io_log w
                  @ (if live_fopen_ok ev \<and> \<not> esc_while_armed ev
                     then live_publication cs (move_ok ev) else []) @ fl
         \<and> files w' = replay ((if live_fopen_ok ev \<and> \<not> esc_while_armed ev
                                then live_publication cs (move_ok ev) else []) @ fl) (files w)
         \<and> list_all (\<lambda>op. \<not> touches live_filepath_tmp op
                              \<and> \<not> touches live_filepath_final op) fl
         \<and> publishes_whole ((if live_fopen_ok ev \<and> \<not> esc_while_armed ev
                              then live_publication cs (move_ok ev) else []) @ fl)
             (files w) ([], None)"
    unfolding io_from_def list_all_iff by blast
qed

theorem live_snapshot_published_whole_one_cycle:
  "\<exists>w' w''. event_loop scenario_config [unflushed_event scenario_config]
          (initial_world scenario_config no_files) = Inr (False, w')
     \<and> (\<exists>ops. io_log w' = ops \<and> files w' = replay ops no_files
           \<and> publishes_whole ops no_files ([], None))
     \<and> acquire_event scenario_config (unflushed_event scenario_config)
          (initial_world scenario_config no_files) = Inr (False, w')
     \<and> (\<exists>cs fl. io_log w' = live_publication cs True @ fl
           \<and> list_all (\<lambda>op. \<not> touches live_filepath_tmp op
                               \<and> \<not> touches live_filepath_final op) fl)
     \<and> ori_acquire_event two_channel_config (one_chunk_event True)
          (initial_world two_channel_config no_files) = Inr (False, w'')
     \<and> (\<exists>cs fl. io_log w'' = live_publication cs True @ fl
           \<and> files w'' = replay (live_publication cs True @ fl) no_files
           \<and> publishes_whole (live_publication cs True @ fl) no_files ([], None))"
proof -
  let ?cfg = scenario_config and ?w = "initial_world scenario_config no_files"
  have ok: "selection_ok ?cfg" "0 < sel_chunk_bytes ?cfg" "heap_next ?w \<noteq> NULL"
    "length (g_data_buffer ?w) = MAX_EVENT_BATCH ?cfg" "g_buffered_count ?w < MAX_EVENT_BATCH ?cfg"
    by (simp_all add: scenario_config_def selection_ok_def sel_chunk_bytes_def
        sel_chunk_samps_def SELECTED_COUNT_def NULL_def initial_world_def)
  from unflushed_event_stored [OF ok] obtain w' where
    ae: "acquire_event ?cfg (unflushed_event ?cfg) ?w = Inr (False, w')" by blast
  then have el: "event_loop ?cfg [unflushed_event ?cfg] ?w = Inr (False, w')" by simp
  note t = live_snapshot_published_whole
             [of ?cfg "[unflushed_event ?cfg]" ?w False w' "unflushed_event ?cfg"]
  from t el have a: "\<exists>ops. io_log w' = ops \<and> files w' = replay ops no_files
           \<and> publishes_whole ops no_files ([], None)"
    by (simp add: initial_world_def)
  from t ae have b: "\<exists>cs fl. io_log w' = live_publication cs True @ fl
           \<and> list_all (\<lambda>op. \<not> touches live_filepath_tmp op
                               \<and> \<not> touches live_filepath_final op) fl"
    by (simp add: initial_world_def unflushed_event_def)
  from ori_one_chunk_event_run obtain w'' where
    oe: "ori_acquire_event two_channel_config (one_chunk_event True)
           (initial_world two_channel_config no_files) = Inr (False, w'')" by blast
  note u = live_snapshot_published_whole
             [of two_channel_config "[]" "initial_world two_channel_config no_files" False w''
                 "one_chunk_event True"]
  from u oe have c: "\<exists>cs fl. io_log w'' = live_publication cs True @ fl
           \<and> files w'' = replay (live_publication cs True @ fl) no_files
           \<and> publishes_whole (live_publication cs True @ fl) no_files ([], None)"
    by (simp add: initial_world_def one_chunk_event_def) blast
  from a b c ae el oe show ?thesis by blast
qed


section \<open>A live file that cannot be opened\<close>

lemma without_live_drain_start:
  "without_live (drain_start cfg f w) = drain_start cfg None (without_files w)"
  by (simp add: without_live_def drain_start_def)

lemma acquire_event_core:
  assumes "\<not> driver_error ev" "\<not> esc_while_armed ev" "sel_work_ok ev"
  shows "map_sum id (map_prod id without_files) (acquire_event cfg ev w) =
     (case drain_loop cfg (polls ev) (drain_start cfg None (without_files w)) of
        Inl e \<Rightarrow> Inl e
      | Inr s \<Rightarrow>
          (case store_event cfg ev s (wld s) of
             Inl e \<Rightarrow> Inl e
           | Inr w' \<Rightarrow> Inr (exit_now s, without_files w')))"
proof -
  let ?f = "fst (fopen_wb live_filepath_tmp (live_fopen_ok ev) w)"
  let ?w0 = "snd (fopen_wb live_filepath_tmp (live_fopen_ok ev) w)"
  let ?X = "drain_loop cfg (polls ev) (drain_start cfg ?f ?w0)"
  have dl: "drain_loop cfg (polls ev) (drain_start cfg None (without_files w))
            = map_sum id without_live ?X"
    using drain_loop_without_live [of cfg "polls ev" "drain_start cfg ?f ?w0"]
    by (simp add: without_live_drain_start)
  show ?thesis
  proof (cases ?X)
    case (Inl e)
    then show ?thesis unfolding acquire_event_run [OF assms] dl by simp
  next
    case (Inr s)
    have "map_sum id without_files (store_event cfg ev (without_live s) (without_files (wld s)))
          = map_sum id without_files (store_event cfg ev s (publish_live (move_ok ev) s))"
      by (rule store_event_core) (simp_all add: publish_live_def split: option.splits)
    then show ?thesis
      unfolding acquire_event_run [OF assms] dl Inr
      by (cases "store_event cfg ev (without_live s) (without_files (wld s))";
          cases "store_event cfg ev s (publish_live (move_ok ev) s)") simp_all
  qed
qed

lemma acquire_event_live_independent:
  "map_sum id (map_prod id without_files) (acquire_event cfg (ev\<lparr>live_fopen_ok := a\<rparr>) w)
   = map_sum id (map_prod id without_files) (acquire_event cfg (ev\<lparr>live_fopen_ok := b\<rparr>) w)"
proof (cases "\<not> driver_error ev \<and> \<not> esc_while_armed ev \<and> sel_work_ok ev")
  case True
  then have "\<And>c. \<not> driver_error (ev\<lparr>live_fopen_ok := c\<rparr>)"
    "\<And>c. \<not> esc_while_armed (ev\<lparr>live_fopen_ok := c\<rparr>)" "\<And>c. sel_work_ok (ev\<lparr>live_fopen_ok := c\<rparr>)"
    by simp_all
  note c = acquire_event_core [OF this]
  have se: "\<And>c s v. store_event cfg (ev\<lparr>live_fopen_ok := c\<rparr>) s v = store_event cfg ev s v"
    by (auto simp: store_event_def split: sum.splits)
  show ?thesis unfolding c by (simp add: se cong: sum.case_cong)
next
  case False
  then consider "driver_error ev" | "\<not> driver_error ev" "esc_while_armed ev"
    | "\<not> driver_error ev" "\<not> esc_while_armed ev" "\<not> sel_work_ok ev" by blast
  then show ?thesis
  proof cases
    case 1
    then show ?thesis by (simp add: acquire_event_driver_error)
  next
    case 2
    then show ?thesis by (simp add: acquire_event_esc_while_armed)
  next
    case 3
    then show ?thesis by (simp add: acquire_event_no_sel_work)
  qed
qed

lemma without_files_eq_fields:
  "without_files w2 = without_files w1 \<Longrightarrow>
   heap w2 = heap w1 \<and> heap_next w2 = heap_next w1 \<and> g_data_buffer w2 = g_data_buffer w1
   \<and> g_buffered_count w2 = g_buffered_count w1 \<and> console w2 = console w1"
  by (metis without_files_simps(1-5))

lemma ori_acquire_event_not_opened:
  "\<not> driver_error ev \<Longrightarrow> \<not> esc_while_armed ev \<Longrightarrow> \<not> live_fopen_ok ev \<Longrightarrow>
   ori_acquire_event cfg ev w = Inr (False, w)"
  by (simp add: ori_acquire_event_def fopen_wb_def)

text \<open>
  The two programs when the live temporary file cannot be opened. In src/cadgetdata.c
  the trigger cycle ends as the same cycle with the file opened does: the same fault, or
  the same exit flag with the same heap, batch array, event count and console, so the
  drain loop ran and the event was stored; the two live files are left as they were. In
  ori.c such a cycle ends at once with nothing collected and nothing stored, and the
  main loop goes on.
\<close>

theorem live_open_failure_skips_only_live:
  "(acquire_event cfg (ev\<lparr>live_fopen_ok := True\<rparr>) w = Inl e \<longrightarrow>
      acquire_event cfg (ev\<lparr>live_fopen_ok := False\<rparr>) w = Inl e)
   \<and> (acquire_event cfg (ev\<lparr>live_fopen_ok := True\<rparr>) w = Inr (ex, w1) \<longrightarrow>
      (\<exists>w2. acquire_event cfg (ev\<lparr>live_fopen_ok := False\<rparr>) w = Inr (ex, w2)
         \<and> heap w2 = heap w1 \<and> g_data_buffer w2 = g_data_buffer w1
         \<and> g_buffered_count w2 = g_buffered_count w1 \<and> console w2 = console w1
         \<and> files w2 live_filepath_tmp = files w live_filepath_tmp
         \<and> files w2 live_filepath_final = files w live_filepath_final))
   \<and> (\<not> driver_error ev \<and> \<not> esc_while_armed ev \<and> \<not> live_fopen_ok ev \<longrightarrow>
      ori_acquire_event cfg ev w = Inr (False, w))"
proof (intro conjI impI)
  let ?F = "acquire_event cfg (ev\<lparr>live_fopen_ok := False\<rparr>) w"
  note ind = acquire_event_live_independent [where a = False and b = True and cfg = cfg and ev = ev and w = w]
  {
    assume "acquire_event cfg (ev\<lparr>live_fopen_ok := True\<rparr>) w = Inl e"
    with ind show "?F = Inl e" by (cases ?F) simp_all
  }
  {
    assume t: "acquire_event cfg (ev\<lparr>live_fopen_ok := True\<rparr>) w = Inr (ex, w1)"
    with ind obtain w2 where w2: "?F = Inr (ex, w2)" "without_files w2 = without_files w1"
      by (cases ?F) auto
    from acquire_event_io [OF w2(1)] obtain fl where
      io: "io_from w w2 fl"
      and unt: "\<forall>op\<in>set fl. \<not> touches live_filepath_tmp op \<and> \<not> touches live_filepath_final op"
      by auto
    have "files w2 live_filepath_tmp = files w live_filepath_tmp"
      "files w2 live_filepath_final = files w live_filepath_final"
      using io unt by (simp_all add: io_from_def replay_untouched)
    with w2 without_files_eq_fields [OF w2(2)]
    show "\<exists>w2. acquire_event cfg (ev\<lparr>live_fopen_ok := False\<rparr>) w = Inr (ex, w2)
         \<and> heap w2 = heap w1 \<and> g_data_buffer w2 = g_data_buffer w1
         \<and> g_buffered_count w2 = g_buffered_count w1 \<and> console w2 = console w1
         \<and> files w2 live_filepath_tmp = files w live_filepath_tmp
         \<and> files w2 live_filepath_final = files w live_filepath_final"
      by blast
  }
  {
    assume "\<not> driver_error ev \<and> \<not> esc_while_armed ev \<and> \<not> live_fopen_ok ev"
    then show "ori_acquire_event cfg ev w = Inr (False, w)"
      by (simp add: ori_acquire_event_not_opened)
  }
qed

theorem live_open_failure_one_cycle:
  "\<exists>w1 w2.
     acquire_event scenario_config ((blind_event scenario_config)\<lparr>live_fopen_ok := True\<rparr>)
       (initial_world scenario_config no_files) = Inr (False, w1)
     \<and> acquire_event scenario_config ((blind_event scenario_config)\<lparr>live_fopen_ok := False\<rparr>)
         (initial_world scenario_config no_files) = Inr (False, w2)
     \<and> heap w2 = heap w1 \<and> g_data_buffer w2 = g_data_buffer w1
     \<and> g_buffered_count w2 = g_buffered_count w1 \<and> g_buffered_count w1 = 1
     \<and> files w2 live_filepath_final = None
     \<and> \<not> driver_error (blind_event scenario_config)
     \<and> \<not> esc_while_armed (blind_event scenario_config)
     \<and> \<not> live_fopen_ok (blind_event scenario_config)
     \<and> ori_acquire_event scenario_config (blind_event scenario_config)
          (initial_world scenario_config no_files)
        = Inr (False, initial_world scenario_config no_files)"
proof -
  let ?cfg = scenario_config and ?w = "initial_world scenario_config no_files"
  let ?ev = "blind_event scenario_config"
  have ok: "selection_ok ?cfg" "0 < sel_chunk_bytes ?cfg" "heap_next ?w \<noteq> NULL"
    "length (g_data_buffer ?w) = MAX_EVENT_BATCH ?cfg" "g_buffered_count ?w < MAX_EVENT_BATCH ?cfg"
    by (simp_all add: scenario_config_def selection_ok_def sel_chunk_bytes_def
        sel_chunk_samps_def SELECTED_COUNT_def NULL_def initial_world_def)
  have ev: "?ev\<lparr>live_fopen_ok := True\<rparr> = unflushed_event ?cfg"
    by (simp add: blind_event_def unflushed_event_def)
  from unflushed_event_stored [OF ok] obtain w1 where
    w1: "acquire_event ?cfg (?ev\<lparr>live_fopen_ok := True\<rparr>) ?w = Inr (False, w1)"
    "g_buffered_count w1 = Suc (g_buffered_count ?w)"
    unfolding ev by blast
  have hyp: "\<not> driver_error ?ev \<and> \<not> esc_while_armed ?ev \<and> \<not> live_fopen_ok ?ev"
    by (simp add: blind_event_def unflushed_event_def)
  note t = live_open_failure_skips_only_live [of ?cfg ?ev ?w _ False w1]
  from t w1(1) obtain w2 where
    w2: "acquire_event ?cfg (?ev\<lparr>live_fopen_ok := False\<rparr>) ?w = Inr (False, w2)"
    "heap w2 = heap w1" "g_data_buffer w2 = g_data_buffer w1"
    "g_buffered_count w2 = g_buffered_count w1"
    "files w2 live_filepath_final = files ?w live_filepath_final"
    by blast
  from t hyp have ori: "ori_acquire_event ?cfg ?ev ?w = Inr (False, ?w)" by blast
  have "g_buffered_count w1 = 1" "files w2 live_filepath_final = None"
    using w1(2) w2(5) by (simp_all add: initial_world_def no_files_def)
  with w1(1) w2 hyp ori show ?thesis by blast
qed

lemma two_channel_extract:
  "extract_selected_channels two_channel_config [10, 20, 11, 21] [0, 0, 0, 0]
   = Inr [10, 20, 11, 21]"
proof -
  have "extract_selected_channels two_channel_config [10, 20, 11, 21] [0, 0, 0, 0]
        = Inr (selected_samples two_channel_config [10, 20, 11, 21])"
    by (rule extract_selected_channels_ok)
       (simp_all add: two_channel_config_def selection_ok_def SELECTED_COUNT_def)
  moreover have "selected_samples two_channel_config [10, 20, 11, 21] = [10, 20, 11, 21]"
    by code_simp
  ultimately show ?thesis by simp
qed

lemma ori_one_chunk_event_stored:
  "\<exists>w'. ori_acquire_event two_channel_config (one_chunk_event True)
          (initial_world two_channel_config no_files) = Inr (False, w')
     \<and> g_buffered_count w' = 1
     \<and> g_data_buffer w' ! 0 = \<lparr>data = 1, size' = 8\<rparr>
     \<and> heap w' 1 = Some (bytes_of_samples [10, 20, 11, 21])"
  by (simp add: ori_acquire_event_def fopen_wb_def one_chunk_event_def poll_only_def
      ori_drain_start_def ori_drain_iteration_def ori_half_ready_def realloc_def
      initial_world_def two_channel_config_def chunk_size_def NULL_def memcpy_def
      do_io_def fwrite_def fclose_def ori_publish_live_def MoveFileExA_def
      ori_store_event_def batch_append_def Let_def bytes_of_samples_def bytes_of_U16_def)

lemma one_chunk_event_stored:
  "\<exists>w'. acquire_event two_channel_config (one_chunk_event False)
          (initial_world two_channel_config no_files) = Inr (False, w')
     \<and> g_buffered_count w' = 1
     \<and> g_data_buffer w' ! 0 = \<lparr>data = 1, size' = 8\<rparr>
     \<and> heap w' 1 = Some (bytes_of_samples [10, 20, 11, 21])"
proof -
  have sw: "replicate (sel_chunk_samps two_channel_config) (0::U16) = [0, 0, 0, 0]"
    by (simp add: sel_chunk_samps_def SELECTED_COUNT_def two_channel_config_def
        numeral_eq_Suc)
  have cb: "sel_chunk_bytes two_channel_config = 8"
    by (simp add: sel_chunk_bytes_def sel_chunk_samps_def SELECTED_COUNT_def two_channel_config_def)
  have mx: "MAX_EVENT_BATCH two_channel_config = 2" by (simp add: two_channel_config_def)
  show ?thesis
    by (simp add: acquire_event_def fopen_wb_def one_chunk_event_def poll_only_def
      drain_start_def drain_iteration_def half_ready_def append_chunk_def realloc_def
      initial_world_def sw cb mx two_channel_extract NULL_def memcpy_def
      publish_live_def store_event_def batch_append_def Let_def
      bytes_of_samples_def bytes_of_U16_def)
qed

text \<open>
  C7. ori.c loses the event when the live temporary file cannot be opened. Whatever the
  driver would deliver, a trigger cycle of ori.c that is triggered and cannot open the
  file returns the world it started from: \<open>continue\<close> leaves the pass before the drain
  loop, so nothing is collected and nothing is added to the batch. On the cycle in which
  the driver delivers the one half-buffer 10, 20, 11, 21 and stops, the batch of ori.c
  is still empty afterwards, while the same program with the file opened, and
  src/cadgetdata.c without it, both end with that event in the batch: one entry of
  eight bytes holding these samples.
\<close>

theorem ori_live_open_failure_loses_event:
  "ori_acquire_event cfg
     (ev\<lparr>driver_error := False, esc_while_armed := False, live_fopen_ok := False\<rparr>) w
   = Inr (False, w)
   \<and> polls (one_chunk_event False) = [poll_only] \<and> halfReady poll_only
   \<and> ai_buf poll_only = [10, 20, 11, 21]
   \<and> ori_acquire_event two_channel_config (one_chunk_event False)
        (initial_world two_channel_config no_files)
      = Inr (False, initial_world two_channel_config no_files)
   \<and> g_buffered_count (initial_world two_channel_config no_files) = 0
   \<and> (\<exists>w1. ori_acquire_event two_channel_config (one_chunk_event True)
               (initial_world two_channel_config no_files) = Inr (False, w1)
          \<and> g_buffered_count w1 = 1
          \<and> g_data_buffer w1 ! 0 = \<lparr>data = 1, size' = 8\<rparr>
          \<and> heap w1 1 = Some (bytes_of_samples [10, 20, 11, 21]))
   \<and> (\<exists>w2. acquire_event two_channel_config (one_chunk_event False)
               (initial_world two_channel_config no_files) = Inr (False, w2)
          \<and> g_buffered_count w2 = 1
          \<and> g_data_buffer w2 ! 0 = \<lparr>data = 1, size' = 8\<rparr>
          \<and> heap w2 1 = Some (bytes_of_samples [10, 20, 11, 21]))"
proof -
  have a: "ori_acquire_event cfg
     (ev\<lparr>driver_error := False, esc_while_armed := False, live_fopen_ok := False\<rparr>) w
   = Inr (False, w)"
    by (simp add: ori_acquire_event_not_opened)
  have b: "polls (one_chunk_event False) = [poll_only]" "halfReady poll_only"
    "ai_buf poll_only = [10, 20, 11, 21]"
    by (simp_all add: one_chunk_event_def poll_only_def)
  have c: "ori_acquire_event two_channel_config (one_chunk_event False)
        (initial_world two_channel_config no_files)
      = Inr (False, initial_world two_channel_config no_files)"
    by (simp add: ori_acquire_event_not_opened one_chunk_event_def)
  have d: "g_buffered_count (initial_world two_channel_config no_files) = 0"
    by (simp add: initial_world_def)
  from a b c d ori_one_chunk_event_stored one_chunk_event_stored show ?thesis
    by (intro conjI)
qed


section \<open>Decimal text\<close>

lemma of_char_digit_char: "d < 10 \<Longrightarrow> (of_char (digit_char d) :: nat) = 48 + d"
  by (simp add: digit_char_def)

lemma is_digit_digit_char: "d < 10 \<Longrightarrow> is_digit (digit_char d)"
  by (simp add: is_digit_def of_char_digit_char)

lemma dec_digits: "c \<in> set (dec n) \<Longrightarrow> is_digit c"
proof (induction n arbitrary: c rule: dec.induct)
  case (1 n)
  show ?case
  proof (cases "n < 10")
    case True
    with "1.prems" show ?thesis by (simp add: dec.simps [of n] is_digit_digit_char)
  next
    case False
    with "1.prems" "1.IH" show ?thesis
      by (auto simp: dec.simps [of n] is_digit_digit_char)
  qed
qed

lemma dec_not_Nil: "dec n \<noteq> []"
  by (simp add: dec.simps [of n])

lemma parse_digits_dec: "parse_digits 0 (dec n @ rest) = parse_digits n rest"
proof (induction n arbitrary: rest rule: dec.induct)
  case (1 n)
  show ?case
  proof (cases "n < 10")
    case True
    then show ?thesis
      by (simp add: dec.simps [of n] is_digit_digit_char of_char_digit_char)
  next
    case False
    have m: "n mod 10 < 10" by simp
    from False "1.IH" [of "digit_char (n mod 10) # rest"] show ?thesis
      by (simp add: dec.simps [of n] is_digit_digit_char [OF m] of_char_digit_char [OF m])
  qed
qed

lemma parse_nat_dec: "parse_nat (dec n) = Some n"
  using parse_digits_dec [of n "[]"] by (simp add: parse_nat_def dec_not_Nil)

lemma length_dec_le: "n < 10 ^ k \<Longrightarrow> 0 < k \<Longrightarrow> length (dec n) \<le> k"
proof (induction n arbitrary: k rule: dec.induct)
  case (1 n)
  show ?case
  proof (cases "n < 10")
    case True
    with "1.prems" show ?thesis by (simp add: dec.simps [of n])
  next
    case False
    from "1.prems" obtain k' where k: "k = Suc k'" by (cases k) simp_all
    with False "1.prems" have k': "0 < k'" by (cases k') simp_all
    have "n div 10 < 10 ^ k'" using "1.prems"(1) k by (simp add: less_mult_imp_div_less)
    from "1.IH" [OF False this k'] False k show ?thesis by (simp add: dec.simps [of n])
  qed
qed

lemma length_zero_pad: "length (zero_pad w s) = max w (length s)"
  by (simp add: zero_pad_def)

lemma zero_pad_digits: "c \<in> set (zero_pad w s) \<Longrightarrow> c = CHR ''0'' \<or> c \<in> set s"
  by (auto simp: zero_pad_def)

lemma is_digit_zero: "is_digit (CHR ''0'')"
  by (simp add: is_digit_def)

lemma fmt_d_digits: "0 \<le> x \<Longrightarrow> c \<in> set (fmt_d w x) \<Longrightarrow> is_digit c"
  by (auto simp: fmt_d_def dest!: zero_pad_digits dec_digits intro: is_digit_zero)

lemma length_fmt_d: "0 \<le> x \<Longrightarrow> x < 10 ^ k \<Longrightarrow> 0 < k \<Longrightarrow> w \<le> k \<Longrightarrow> length (fmt_d w x) \<le> k"
proof -
  assume a: "0 \<le> x" "x < 10 ^ k" "0 < k" "w \<le> k"
  then have "nat x < 10 ^ k" by (simp add: nat_less_iff)
  from length_dec_le [OF this a(3)] a show ?thesis
    by (simp add: fmt_d_def length_zero_pad)
qed

lemma fmt_d_0: "fmt_d 0 (int n) = dec n"
  by (simp add: fmt_d_def zero_pad_def)

lemma not_digit_newline: "\<not> is_digit newline"
  by (simp add: is_digit_def newline_def)


section \<open>The header and its reader\<close>

lemma read_line_found:
  "newline \<notin> set l \<Longrightarrow> read_line (l @ newline # rest) = Some (l, rest)"
  by (induction l) auto

lemma read_header_lines:
  "\<forall>l\<in>set ls. l \<noteq> [] \<and> newline \<notin> set l \<Longrightarrow> length ls < n \<Longrightarrow>
   read_header n (concat (map (\<lambda>l. l @ [newline]) ls) @ newline # rest) = Some (ls, rest)"
proof (induction ls arbitrary: n)
  case Nil
  then obtain m where "n = Suc m" by (cases n) simp_all
  then show ?case by simp
next
  case (Cons l ls)
  then obtain m where n: "n = Suc m" by (cases n) simp_all
  have l: "l \<noteq> []" "newline \<notin> set l" using Cons.prems(1) by simp_all
  have "read_header m (concat (map (\<lambda>l. l @ [newline]) ls) @ newline # rest) = Some (ls, rest)"
    using Cons.prems n by (intro Cons.IH) simp_all
  then show ?case
    using l by (simp add: n read_line_found)
qed

lemma valid_tm_fields:
  assumes "valid_tm t"
  shows "0 \<le> tm_year t + 1900" "tm_year t + 1900 < 10 ^ 4" "0 \<le> tm_mon t + 1" "tm_mon t + 1 < 10 ^ 2"
    "0 \<le> tm_mday t" "tm_mday t < 10 ^ 2" "0 \<le> tm_hour t" "tm_hour t < 10 ^ 2"
    "0 \<le> tm_min t" "tm_min t < 10 ^ 2" "0 \<le> tm_sec t" "tm_sec t < 10 ^ 2"
  using assms by (simp_all add: valid_tm_def)

lemma length_test_date: "valid_tm t \<Longrightarrow> length (test_date t) \<le> 19"
proof -
  assume v: "valid_tm t"
  note f = valid_tm_fields [OF v]
  have "length (fmt_d 4 (tm_year t + 1900)) \<le> 4" by (rule length_fmt_d [OF f(1,2)]) simp_all
  moreover have "length (fmt_d 2 (tm_mon t + 1)) \<le> 2" by (rule length_fmt_d [OF f(3,4)]) simp_all
  moreover have "length (fmt_d 2 (tm_mday t)) \<le> 2" by (rule length_fmt_d [OF f(5,6)]) simp_all
  moreover have "length (fmt_d 2 (tm_hour t)) \<le> 2" by (rule length_fmt_d [OF f(7,8)]) simp_all
  moreover have "length (fmt_d 2 (tm_min t)) \<le> 2" by (rule length_fmt_d [OF f(9,10)]) simp_all
  moreover have "length (fmt_d 2 (tm_sec t)) \<le> 2" by (rule length_fmt_d [OF f(11,12)]) simp_all
  ultimately show ?thesis by (simp add: test_date_def)
qed

lemma test_date_no_newline: "valid_tm t \<Longrightarrow> newline \<notin> set (test_date t)"
proof
  assume v: "valid_tm t" and "newline \<in> set (test_date t)"
  note f = valid_tm_fields [OF v]
  from \<open>newline \<in> set (test_date t)\<close> have "is_digit newline"
    using fmt_d_digits [OF f(1)] fmt_d_digits [OF f(3)] fmt_d_digits [OF f(5)]
      fmt_d_digits [OF f(7)] fmt_d_digits [OF f(9)] fmt_d_digits [OF f(11)]
    by (auto simp: test_date_def newline_def)
  then show False by (simp add: not_digit_newline)
qed

lemma dec_no_newline: "newline \<notin> set (dec n)"
  using dec_digits [of newline n] not_digit_newline by blast

lemma batch_header_lines:
  assumes v: "valid_tm t" and n: "n < 2 ^ 31"
  shows "batch_header t n = concat (map (\<lambda>l. l @ [newline]) (header_lines t n)) @ [newline]"
proof -
  have "n < 10 ^ 10" using n by simp
  then have "length (dec n) \<le> 10" by (rule length_dec_le) simp
  with length_test_date [OF v] show ?thesis
    by (simp add: batch_header_def snprintf_def header_lines_def fmt_d_0 newline_def
        CODE_VERSION_def AUTHOR_NAME_def)
qed

lemma header_lines_ok:
  "valid_tm t \<Longrightarrow> \<forall>l\<in>set (header_lines t n). l \<noteq> [] \<and> newline \<notin> set l"
  using test_date_no_newline [of t] dec_no_newline [of n]
  by (simp add: header_lines_def) (simp add: newline_def)

lemma field_value_header:
  "field_value ''BATCH_EVENT_COUNT:'' (header_lines t n) = Some (dec n)"
  by (simp add: header_lines_def)

lemma read_batch_log_header:
  assumes v: "valid_tm t" and n: "n < 2 ^ 31"
  shows "read_batch_log (batch_header t n @ payload) = Some (n, payload)"
proof -
  let ?ls = "header_lines t n"
  let ?bs = "concat (map (\<lambda>l. l @ [newline]) ?ls) @ newline # payload"
  have bs: "batch_header t n @ payload = ?bs"
    by (simp add: batch_header_lines [OF v n])
  have "length ?ls < length ?bs" by (simp add: header_lines_def)
  from read_header_lines [OF header_lines_ok [OF v] this]
  have "read_header (length ?bs) ?bs = Some (?ls, payload)" .
  then show ?thesis
    unfolding bs read_batch_log_def by (simp add: field_value_header parse_nat_dec)
qed

lemma split_sizes_concat: "split_sizes (map length ps) (concat ps) = ps"
  by (induction ps) simp_all


section \<open>The flush writes every event and frees it\<close>

lemma write_event_step:
  assumes "i < length (g_data_buffer v)"
    and "data (g_data_buffer v ! i) = p" "size' (g_data_buffer v ! i) = n"
    and "p \<noteq> NULL" "heap v p = Some blk" "n \<le> length blk" "files v f = Some c"
  shows "\<exists>v'. write_event f i v = Inr v'
           \<and> files v' = (files v)(f \<mapsto> c @ take n blk)
           \<and> heap v' = (heap v)(p := None)
           \<and> g_data_buffer v' = (g_data_buffer v)[i := \<lparr>data = NULL, size' = 0\<rparr>]
           \<and> g_buffered_count v' = g_buffered_count v"
proof (cases "n = 0")
  case True
  have "(files v)(f \<mapsto> c) = files v" using assms(7) by (simp add: fun_upd_idem)
  with True assms show ?thesis
    by (simp add: write_event_def fwrite_block_def free_def)
next
  case False
  with assms show ?thesis
    by (simp add: write_event_def fwrite_block_def free_def fwrite_def)
qed

lemma write_events_payloads:
  "n \<le> length (g_data_buffer v) \<Longrightarrow> i \<le> n \<Longrightarrow>
   (\<forall>j. i \<le> j \<and> j < n \<longrightarrow> data (g_data_buffer v ! j) = ptr j \<and> size' (g_data_buffer v ! j) = sz j
          \<and> heap v (ptr j) = Some (blk j)) \<Longrightarrow>
   (\<forall>j<n. ptr j \<noteq> NULL \<and> sz j \<le> length (blk j)) \<Longrightarrow>
   (\<forall>j k. j < n \<and> k < n \<and> j \<noteq> k \<longrightarrow> ptr j \<noteq> ptr k) \<Longrightarrow>
   (\<forall>j<i. heap v (ptr j) = None) \<Longrightarrow> files v f = Some c \<Longrightarrow>
   \<exists>v'. write_events f n i v = Inr v'
      \<and> files v' = (files v)(f \<mapsto> c @ concat (map (\<lambda>j. take (sz j) (blk j)) [i..<n]))
      \<and> (\<forall>j<n. heap v' (ptr j) = None)
      \<and> g_buffered_count v' = g_buffered_count v"
proof (induction "n - i" arbitrary: i v c)
  case 0
  then have "i = n" by simp
  with 0 show ?case by (simp add: write_events.simps [of f n n] fun_upd_idem)
next
  case (Suc d)
  then have lt: "i < n" by simp
  have e: "data (g_data_buffer v ! i) = ptr i" "size' (g_data_buffer v ! i) = sz i"
    "heap v (ptr i) = Some (blk i)"
    using Suc.prems(3) lt by simp_all
  have p: "ptr i \<noteq> NULL" "sz i \<le> length (blk i)" using Suc.prems(4) lt by simp_all
  have il: "i < length (g_data_buffer v)" using lt Suc.prems(1) by simp
  from write_event_step [OF il e(1,2) p(1) e(3) p(2) Suc.prems(7)] obtain v1 where
    v1: "write_event f i v = Inr v1"
    "files v1 = (files v)(f \<mapsto> c @ take (sz i) (blk i))"
    "heap v1 = (heap v)(ptr i := None)"
    "g_data_buffer v1 = (g_data_buffer v)[i := \<lparr>data = NULL, size' = 0\<rparr>]"
    "g_buffered_count v1 = g_buffered_count v"
    by blast
  have a1: "n \<le> length (g_data_buffer v1)" using Suc.prems(1) v1(4) by simp
  have a3: "\<forall>j. Suc i \<le> j \<and> j < n \<longrightarrow> data (g_data_buffer v1 ! j) = ptr j
              \<and> size' (g_data_buffer v1 ! j) = sz j \<and> heap v1 (ptr j) = Some (blk j)"
  proof (intro allI impI)
    fix j assume j: "Suc i \<le> j \<and> j < n"
    then have "ptr j \<noteq> ptr i" using Suc.prems(5) lt by auto
    moreover have "i \<le> j \<and> j < n" using j by simp
    ultimately show "data (g_data_buffer v1 ! j) = ptr j
              \<and> size' (g_data_buffer v1 ! j) = sz j \<and> heap v1 (ptr j) = Some (blk j)"
      using Suc.prems(3) j v1(3,4) by simp
  qed
  have a6: "\<forall>j<Suc i. heap v1 (ptr j) = None"
    using Suc.prems(6) v1(3) by (auto simp: less_Suc_eq)
  have a7: "files v1 f = Some (c @ take (sz i) (blk i))" using v1(2) by simp
  have d: "d = n - Suc i" using Suc.hyps(2) by simp
  from Suc.hyps(1) [OF d a1 _ a3 Suc.prems(4) Suc.prems(5) a6 a7] lt obtain v' where
    v': "write_events f n (Suc i) v1 = Inr v'"
    "files v' = (files v1)(f \<mapsto> (c @ take (sz i) (blk i))
                     @ concat (map (\<lambda>j. take (sz j) (blk j)) [Suc i..<n]))"
    "\<forall>j<n. heap v' (ptr j) = None" "g_buffered_count v' = g_buffered_count v1"
    by auto
  have "write_events f n i v = Inr v'"
    using lt v1(1) v'(1) by (simp add: write_events.simps [of f n i])
  moreover have "files v' = (files v)(f \<mapsto> c @ concat (map (\<lambda>j. take (sz j) (blk j)) [i..<n]))"
    using v'(2) v1(2) lt by (simp add: upt_conv_Cons)
  ultimately show ?case using v'(3,4) v1(5) by auto
qed

lemma batch_ok_entries:
  assumes "batch_ok w" "j < g_buffered_count w"
  shows "data (g_data_buffer w ! j) \<noteq> NULL"
    "\<exists>c. heap w (data (g_data_buffer w ! j)) = Some c \<and> size' (g_data_buffer w ! j) \<le> length c"
proof -
  from assms have "j < length (take (g_buffered_count w) (g_data_buffer w))"
    by (simp add: batch_ok_def)
  with assms(1) have "data (take (g_buffered_count w) (g_data_buffer w) ! j) \<noteq> NULL
     \<and> (case heap w (data (take (g_buffered_count w) (g_data_buffer w) ! j)) of
          None \<Rightarrow> False
        | Some c \<Rightarrow> size' (take (g_buffered_count w) (g_data_buffer w) ! j) \<le> length c)"
    unfolding batch_ok_def list_all_length by blast
  with assms(2) show "data (g_data_buffer w ! j) \<noteq> NULL"
    "\<exists>c. heap w (data (g_data_buffer w ! j)) = Some c \<and> size' (g_data_buffer w ! j) \<le> length c"
    by (auto split: option.splits)
qed

lemma batch_ok_distinct:
  assumes "batch_ok w" "j < g_buffered_count w" "k < g_buffered_count w" "j \<noteq> k"
  shows "data (g_data_buffer w ! j) \<noteq> data (g_data_buffer w ! k)"
proof -
  let ?xs = "map data (take (g_buffered_count w) (g_data_buffer w))"
  have d: "distinct ?xs" and l: "g_buffered_count w \<le> length (g_data_buffer w)"
    using assms(1) by (simp_all add: batch_ok_def)
  have jk: "j < length ?xs" "k < length ?xs" using assms(2,3) l by simp_all
  from nth_eq_iff_index_eq [OF d jk] assms(4) have "?xs ! j \<noteq> ?xs ! k" by blast
  moreover have "?xs ! j = data (g_data_buffer w ! j)" "?xs ! k = data (g_data_buffer w ! k)"
    using assms(2,3) l by simp_all
  ultimately show ?thesis by simp
qed

lemma length_event_payload:
  "batch_ok w \<Longrightarrow> j < g_buffered_count w \<Longrightarrow>
   length (event_payload w j) = size' (g_data_buffer w ! j)"
  using batch_ok_entries(2) [of w j] by (auto simp: event_payload_def)

lemma batch_sizes_payloads: "batch_ok w \<Longrightarrow> map length (batch_payloads w) = batch_sizes w"
  by (simp add: batch_payloads_def batch_sizes_def length_event_payload)

lemma save_batch_to_file_written:
  assumes ok: "batch_ok w" and pos: "g_buffered_count w \<noteq> 0"
  shows "\<exists>w'. save_batch_to_file t True w = Inr w'
           \<and> files w' = (files w)(log_filepath t (g_buffered_count w) \<mapsto>
                batch_header t (g_buffered_count w) @ concat (batch_payloads w))
           \<and> (\<forall>j<g_buffered_count w. heap w' (data (g_data_buffer w ! j)) = None)
           \<and> g_buffered_count w' = 0"
proof -
  let ?n = "g_buffered_count w"
  let ?f = "log_filepath t ?n" and ?h = "batch_header t ?n"
  let ?v = "fwrite ?h ?f (do_io (Fopen ?f) w)"
  let ?ptr = "\<lambda>j. data (g_data_buffer w ! j)" and ?sz = "\<lambda>j. size' (g_data_buffer w ! j)"
  let ?blk = "\<lambda>j. the (heap w (data (g_data_buffer w ! j)))"
  have fv: "files ?v = (files w)(?f \<mapsto> ?h)" "heap ?v = heap w"
    "g_data_buffer ?v = g_data_buffer w" "g_buffered_count ?v = ?n"
    by (simp_all add: fwrite_def)
  have a1: "?n \<le> length (g_data_buffer ?v)" using ok by (simp add: batch_ok_def fv)
  have a3: "\<forall>j. 0 \<le> j \<and> j < ?n \<longrightarrow> data (g_data_buffer ?v ! j) = ?ptr j
              \<and> size' (g_data_buffer ?v ! j) = ?sz j \<and> heap ?v (?ptr j) = Some (?blk j)"
    using batch_ok_entries(2) [OF ok] by (fastforce simp: fv)
  have a4: "\<forall>j<?n. ?ptr j \<noteq> NULL \<and> ?sz j \<le> length (?blk j)"
    using batch_ok_entries [OF ok] by fastforce
  have a5: "\<forall>j k. j < ?n \<and> k < ?n \<and> j \<noteq> k \<longrightarrow> ?ptr j \<noteq> ?ptr k"
    using batch_ok_distinct [OF ok] by blast
  have a6: "\<forall>j<0. heap ?v (?ptr j) = None" by simp
  have a7: "files ?v ?f = Some ?h" by (simp add: fv)
  from write_events_payloads [OF a1 _ a3 a4 a5 a6 a7] obtain v' where
    v': "write_events ?f ?n 0 ?v = Inr v'"
    "files v' = (files ?v)(?f \<mapsto> ?h @ concat (map (\<lambda>j. take (?sz j) (?blk j)) [0..<?n]))"
    "\<forall>j<?n. heap v' (?ptr j) = None"
    by auto
  have pl: "map (\<lambda>j. take (?sz j) (?blk j)) [0..<?n] = batch_payloads w"
    unfolding batch_payloads_def
  proof (rule map_cong [OF refl])
    fix j assume "j \<in> set [0..<?n]"
    then have "j < ?n" by simp
    from batch_ok_entries(2) [OF ok this]
    show "take (?sz j) (?blk j) = event_payload w j" by (auto simp: event_payload_def)
  qed
  let ?w' = "(printf (''Batch '' @ fmt_d 0 (int (g_buffered_count v'))
                               @ '' event disimpan ke '' @ ?f
                               @ '' (header+data)\<newline>'')
                        (fclose ?f v'))\<lparr>g_buffered_count := 0\<rparr>"
  have "save_batch_to_file t True w = Inr ?w'"
    using pos v'(1) by (simp add: save_batch_to_file_def fopen_wb_def)
  moreover have "files ?w' = (files w)(?f \<mapsto> ?h @ concat (batch_payloads w))"
    using v'(2) by (simp add: fclose_def printf_def fv pl)
  moreover have "\<forall>j<?n. heap ?w' (?ptr j) = None" using v'(3) by simp
  ultimately show ?thesis by auto
qed

text \<open>
  C5. Flushing a non-empty batch whose log file can be opened writes one file: the
  header followed by the payloads of the events in insertion order with nothing between
  them. Reading that file back gives the number of events as the declared count and the
  payload bytes as the rest; cutting the rest by the sizes the batch recorded gives back
  the payloads. Afterwards every event buffer is freed and the count is zero.
\<close>

theorem flush_round_trip:
  "batch_ok w \<and> g_buffered_count w \<noteq> 0 \<and> g_buffered_count w < 2 ^ 31 \<and> valid_tm t \<longrightarrow>
   (\<exists>w'. save_batch_to_file t True w = Inr w'
      \<and> files w' = (files w)(log_filepath t (g_buffered_count w) \<mapsto>
            batch_header t (g_buffered_count w) @ concat (batch_payloads w))
      \<and> read_batch_log (batch_header t (g_buffered_count w) @ concat (batch_payloads w))
          = Some (g_buffered_count w, concat (batch_payloads w))
      \<and> split_sizes (batch_sizes w) (concat (batch_payloads w)) = batch_payloads w
      \<and> list_all (\<lambda>e. heap w' (data e) = None) (take (g_buffered_count w) (g_data_buffer w))
      \<and> g_buffered_count w' = 0)"
proof
  assume h: "batch_ok w \<and> g_buffered_count w \<noteq> 0 \<and> g_buffered_count w < 2 ^ 31 \<and> valid_tm t"
  then have ok: "batch_ok w" and pos: "g_buffered_count w \<noteq> 0"
    and n: "g_buffered_count w < 2 ^ 31" and v: "valid_tm t" by simp_all
  from save_batch_to_file_written [OF ok pos, of t] obtain w' where
    w': "save_batch_to_file t True w = Inr w'"
    "files w' = (files w)(log_filepath t (g_buffered_count w) \<mapsto>
            batch_header t (g_buffered_count w) @ concat (batch_payloads w))"
    "\<forall>j<g_buffered_count w. heap w' (data (g_data_buffer w ! j)) = None"
    "g_buffered_count w' = 0"
    by blast
  have fr: "list_all (\<lambda>e. heap w' (data e) = None) (take (g_buffered_count w) (g_data_buffer w))"
    using w'(3) by (simp add: list_all_length)
  have rd: "read_batch_log (batch_header t (g_buffered_count w) @ concat (batch_payloads w))
          = Some (g_buffered_count w, concat (batch_payloads w))"
    by (rule read_batch_log_header [OF v n])
  have sp: "split_sizes (batch_sizes w) (concat (batch_payloads w)) = batch_payloads w"
    using split_sizes_concat [of "batch_payloads w"] by (simp add: batch_sizes_payloads [OF ok])
  from w'(1,2,4) fr rd sp show "\<exists>w'. save_batch_to_file t True w = Inr w'
      \<and> files w' = (files w)(log_filepath t (g_buffered_count w) \<mapsto>
            batch_header t (g_buffered_count w) @ concat (batch_payloads w))
      \<and> read_batch_log (batch_header t (g_buffered_count w) @ concat (batch_payloads w))
          = Some (g_buffered_count w, concat (batch_payloads w))
      \<and> split_sizes (batch_sizes w) (concat (batch_payloads w)) = batch_payloads w
      \<and> list_all (\<lambda>e. heap w' (data e) = None) (take (g_buffered_count w) (g_data_buffer w))
      \<and> g_buffered_count w' = 0"
    by blast
qed

lemma two_event_world_batch:
  "batch_payloads two_event_world = [''ab'', ''cde'']" "batch_sizes two_event_world = [2, 3]"
  "g_buffered_count two_event_world = 2"
  by (simp_all add: batch_payloads_def batch_sizes_def event_payload_def two_event_world_def
      upt_rec [of 0] upt_rec [of 1] upt_rec [of "Suc 0"])

theorem flush_round_trip_two_events:
  "batch_ok two_event_world \<and> g_buffered_count two_event_world \<noteq> 0
   \<and> g_buffered_count two_event_world < 2 ^ 31 \<and> valid_tm some_time
   \<and> (\<exists>w'. save_batch_to_file some_time True two_event_world = Inr w'
        \<and> files w' (log_filepath some_time 2) = Some (batch_header some_time 2 @ ''abcde'')
        \<and> read_batch_log (batch_header some_time 2 @ ''abcde'') = Some (2, ''abcde'')
        \<and> split_sizes [2, 3] ''abcde'' = [''ab'', ''cde'']
        \<and> heap w' 1 = None \<and> heap w' 2 = None \<and> g_buffered_count w' = 0)"
proof -
  have hyps: "batch_ok two_event_world \<and> g_buffered_count two_event_world \<noteq> 0
   \<and> g_buffered_count two_event_world < 2 ^ 31 \<and> valid_tm some_time"
    by (simp add: batch_ok_def two_event_world_def NULL_def valid_tm_def some_time_def)
  from flush_round_trip [of two_event_world some_time] hyps obtain w' where
    w': "save_batch_to_file some_time True two_event_world = Inr w'"
    "files w' = (files two_event_world)(log_filepath some_time (g_buffered_count two_event_world) \<mapsto>
            batch_header some_time (g_buffered_count two_event_world)
            @ concat (batch_payloads two_event_world))"
    "read_batch_log (batch_header some_time (g_buffered_count two_event_world)
                     @ concat (batch_payloads two_event_world))
          = Some (g_buffered_count two_event_world, concat (batch_payloads two_event_world))"
    "split_sizes (batch_sizes two_event_world) (concat (batch_payloads two_event_world))
       = batch_payloads two_event_world"
    "list_all (\<lambda>e. heap w' (data e) = None)
       (take (g_buffered_count two_event_world) (g_data_buffer two_event_world))"
    "g_buffered_count w' = 0"
    by blast
  have fr: "heap w' 1 = None \<and> heap w' 2 = None"
    using w'(5) by (simp add: two_event_world_def)
  from w'(1,2,3,4,6) fr have "\<exists>w'. save_batch_to_file some_time True two_event_world = Inr w'
        \<and> files w' (log_filepath some_time 2) = Some (batch_header some_time 2 @ ''abcde'')
        \<and> read_batch_log (batch_header some_time 2 @ ''abcde'') = Some (2, ''abcde'')
        \<and> split_sizes [2, 3] ''abcde'' = [''ab'', ''cde'']
        \<and> heap w' 1 = None \<and> heap w' 2 = None \<and> g_buffered_count w' = 0"
    unfolding two_event_world_batch by (intro exI [of _ w']) simp
  with hyps show ?thesis by blast
qed

end
